theory Spec2Isabelle
  imports Main "HOL-Library.Multiset" "HOL-Library.Sublist"
begin

section \<open>The keyword tree of keywordtree.py\<close>

text \<open>
  The Python objects of class \<open>State\<close> live in a store that maps addresses to records.
  A state is created with \<open>identifier = _counter\<close>, and the counter only grows, so the
  identifier is unique and serves as the address of the object. A reference to a state
  (\<open>parent\<close>, \<open>longest_strict_suffix\<close>, the values of \<open>transitions\<close>) is an address, and
  \<open>None\<close> is the absent reference. Python's \<open>is\<close> on states is equality of addresses.

  A \<open>dict\<close> keeps its insertion order, and both \<open>values()\<close> and \<open>items()\<close> iterate in
  that order, so \<open>transitions\<close> is an association list to which a new key is appended.
  The code never assigns to a key that is already present.
\<close>

text \<open>
  A Python \<open>str\<close> is a sequence of Unicode code points, and a code point is its number.
  Iterating a \<open>str\<close> yields its code points one by one (as strings of length one, which
  are compared and hashed by that code point). \<open>ascii\<close> is the \<open>str\<close> of a literal
  written in this file.
\<close>

type_synonym codepoint = nat
type_synonym str = "codepoint list"

definition ascii :: "string \<Rightarrow> str" where
  "ascii s = map of_char s"

text \<open>
  The exceptions. \<open>ValueError\<close> stands for the class with its subclasses (an
  \<open>except ValueError\<close> clause catches them all) and carries the message;
  \<open>RecursionError\<close> is the \<open>RuntimeError\<close> the interpreter raises when a call would nest
  deeper than its recursion limit, and \<open>RuntimeError\<close> any other one.
\<close>

datatype error = ValueError string | AttributeError | RuntimeError | RecursionError | OSError

record State =
  "identifier" :: nat
  symbol :: "codepoint option"
  success :: bool
  transitions :: "(codepoint \<times> nat) list"
  parent :: "nat option"
  matched_keyword :: "str option"
  longest_strict_suffix :: "nat option"

text \<open>\<open>State.__init__(identifier, symbol, parent, success)\<close>\<close>

definition State_init :: "nat \<Rightarrow> codepoint option \<Rightarrow> nat option \<Rightarrow> bool \<Rightarrow> State" where
  "State_init ident symb par succ =
     \<lparr>identifier = ident, symbol = symb, success = succ, transitions = [],
      parent = par, matched_keyword = None, longest_strict_suffix = None\<rparr>"

record KeywordTree =
  zero_state :: nat
  counter :: nat
  finalized :: bool
  case_insensitive :: bool
  heap :: "nat \<rightharpoonup> State"

text \<open>\<open>KeywordTree.__init__(case_insensitive)\<close>: the zero state is \<open>State(0)\<close>.\<close>

definition KeywordTree_init :: "bool \<Rightarrow> KeywordTree" where
  "KeywordTree_init ci =
     \<lparr>zero_state = 0, counter = 1, finalized = False, case_insensitive = ci,
      heap = [0 \<mapsto> State_init 0 None None False]\<rparr>"

text \<open>
  Reading the object behind a reference, and writing a field of it. A reference held by
  the program always points to an allocated state (\<open>skeleton\<close> below states it, and
  every tree the operations produce satisfies it).
\<close>

definition state_at :: "KeywordTree \<Rightarrow> nat \<Rightarrow> State" where
  "state_at T a = the (heap T a)"

definition update_state :: "KeywordTree \<Rightarrow> nat \<Rightarrow> (State \<Rightarrow> State) \<Rightarrow> KeywordTree" where
  "update_state T a f = T\<lparr>heap := (heap T)(a \<mapsto> f (state_at T a))\<rparr>"

text \<open>
  \<open>str.lower()\<close> is a function of the Python runtime, not of keywordtree.py: it applies the
  lower-case mapping of Unicode, which covers every cased code point, depends on the
  neighbours of a code point and can change the length of the string. The operations that
  call it take it as the parameter \<open>lower\<close>, an arbitrary function on strings, and
  every general property below holds for whatever function it is.

  \<open>ascii_lower\<close> is what \<open>str.lower()\<close> does on a string of ASCII code points: the letters
  A to Z (65 to 90) are moved to a to z. It serves as the value of the parameter in the
  examples, whose strings are all ASCII.
\<close>

definition ascii_lower :: "str \<Rightarrow> str" where
  "ascii_lower s = map (\<lambda>c. if 65 \<le> c \<and> c \<le> 90 then c + 32 else c) s"

subsection \<open>add\<close>

text \<open>
  The \<open>for char in keyword\<close> loop of \<open>add\<close>: follow the transition on \<open>char\<close>, or on
  \<open>KeyError\<close> create the next state, link it below the current one and move to it.
  The result is the tree and the state the loop ends in.
\<close>

fun add_chars :: "KeywordTree \<Rightarrow> nat \<Rightarrow> str \<Rightarrow> KeywordTree \<times> nat" where
  "add_chars T current_state [] = (T, current_state)"
| "add_chars T current_state (char # rest) =
     (case map_of (transitions (state_at T current_state)) char of
        Some nxt \<Rightarrow> add_chars T nxt rest
      | None \<Rightarrow>
          (let next_state = counter T;
               T1 = T\<lparr>heap := (heap T)(next_state \<mapsto>
                      State_init (counter T) (Some char) (Some current_state) False)\<rparr>;
               T2 = T1\<lparr>counter := counter T1 + 1\<rparr>;
               T3 = update_state T2 current_state
                      (\<lambda>s. s\<lparr>transitions := transitions s @ [(char, next_state)]\<rparr>)
           in add_chars T3 next_state rest))"

text \<open>
  A method returns its result, or the exception it raised, together with the tree as the
  call left it.
\<close>

type_synonym 'a outcome = "(error + 'a) \<times> KeywordTree"

definition add :: "(str \<Rightarrow> str) \<Rightarrow> KeywordTree \<Rightarrow> str \<Rightarrow> unit outcome" where
  "add lower T keyword0 =
     (if finalized T then
        (Inl (ValueError ''KeywordTree has been finalized. No more keyword additions allowed''), T)
      else
        (let original_keyword = keyword0;
             keyword = (if case_insensitive T then lower keyword0 else keyword0)
         in if length keyword \<le> 0 then (Inr (), T)
            else
              (let (T1, current_state) = add_chars T (zero_state T) keyword
               in (Inr (), update_state T1 current_state
                     (\<lambda>s. s\<lparr>success := True, matched_keyword := Some original_keyword\<rparr>)))))"

subsection \<open>search_all\<close>

text \<open>
  The inner loop of \<open>search_all\<close>, \<open>while state is not zero_state\<close>: a terminal state
  appends its \<open>matched_keyword\<close> (a value that Python allows to be \<open>None\<close>), and the loop
  moves on to \<open>longest_strict_suffix\<close>. When that reference is \<open>None\<close>, reading
  \<open>state.success\<close> raises \<open>AttributeError\<close>. The loop has no bound of its own: \<open>None\<close> of the
  option type is the run that never returns.
\<close>

partial_function (option) report_chain ::
  "KeywordTree \<Rightarrow> nat option \<Rightarrow> str option list \<Rightarrow> (error + str option list) option" where
  "report_chain T state ret =
     (if state = Some (zero_state T) then Some (Inr ret)
      else
        (case state of
           None \<Rightarrow> Some (Inl AttributeError)
         | Some s \<Rightarrow>
             report_chain T (longest_strict_suffix (state_at T s))
               (if success (state_at T s) then ret @ [matched_keyword (state_at T s)] else ret)))"

declare report_chain.simps [code]

text \<open>
  \<open>current_state.transitions.get(symbol, zero_state.transitions.get(symbol, zero_state))\<close>
\<close>

definition goto :: "KeywordTree \<Rightarrow> nat \<Rightarrow> codepoint \<Rightarrow> nat" where
  "goto T current_state symb =
     (case map_of (transitions (state_at T current_state)) symb of
        Some n \<Rightarrow> n
      | None \<Rightarrow>
          (case map_of (transitions (state_at T (zero_state T))) symb of
             Some n \<Rightarrow> n
           | None \<Rightarrow> zero_state T))"

text \<open>The \<open>for idx, symbol in enumerate(text)\<close> loop.\<close>

fun search_loop ::
  "KeywordTree \<Rightarrow> nat \<Rightarrow> str \<Rightarrow> str option list \<Rightarrow> (error + str option list) option" where
  "search_loop T current_state [] ret = Some (Inr ret)"
| "search_loop T current_state (symb # rest) ret =
     (let current_state1 = goto T current_state symb
      in case report_chain T (Some current_state1) ret of
           None \<Rightarrow> None
         | Some (Inl e) \<Rightarrow> Some (Inl e)
         | Some (Inr ret1) \<Rightarrow> search_loop T current_state1 rest ret1)"

definition search_all ::
  "(str \<Rightarrow> str) \<Rightarrow> KeywordTree \<Rightarrow> str \<Rightarrow> (error + str option list) option" where
  "search_all lower T text0 =
     (if \<not> finalized T then
        Some (Inl (ValueError ''KeywordTree has not been finalized. No search allowed. Call finalize() first.''))
      else
        (let text = (if case_insensitive T then lower text0 else text0)
         in search_loop T (zero_state T) text []))"

text \<open>
  The same loop, keeping what \<open>search_all\<close> appends at each index apart: one list of
  reported keywords per position of the text. \<open>search_all\<close> returns their concatenation.
\<close>

fun search_groups ::
  "KeywordTree \<Rightarrow> nat \<Rightarrow> str \<Rightarrow> (error + str option list list) option" where
  "search_groups T current_state [] = Some (Inr [])"
| "search_groups T current_state (symb # rest) =
     (let current_state1 = goto T current_state symb
      in case report_chain T (Some current_state1) [] of
           None \<Rightarrow> None
         | Some (Inl e) \<Rightarrow> Some (Inl e)
         | Some (Inr g) \<Rightarrow>
             (case search_groups T current_state1 rest of
                None \<Rightarrow> None
              | Some (Inl e) \<Rightarrow> Some (Inl e)
              | Some (Inr gs) \<Rightarrow> Some (Inr (g # gs))))"

definition search_all_by_position ::
  "(str \<Rightarrow> str) \<Rightarrow> KeywordTree \<Rightarrow> str \<Rightarrow> (error + str option list list) option" where
  "search_all_by_position lower T text0 =
     (if \<not> finalized T then
        Some (Inl (ValueError ''KeywordTree has not been finalized. No search allowed. Call finalize() first.''))
      else
        (let text = (if case_insensitive T then lower text0 else text0)
         in search_groups T (zero_state T) text))"

subsection \<open>finalize\<close>

text \<open>\<open>state.symbol in traversed.transitions\<close>, for a symbol that may be \<open>None\<close>.\<close>

definition lookup :: "(codepoint \<times> nat) list \<Rightarrow> codepoint option \<Rightarrow> nat option" where
  "lookup tr symb = (case symb of None \<Rightarrow> None | Some c \<Rightarrow> map_of tr c)"

text \<open>
  The \<open>while True\<close> loop of \<open>search_lss\<close>. It only reads the tree until it breaks, and
  it breaks by assigning \<open>state.longest_strict_suffix\<close>: the result is the state
  assigned. \<open>traversed\<close> is \<open>None\<close> when the reference followed was not set, and then
  \<open>traversed.transitions\<close> raises \<open>AttributeError\<close>.
\<close>

partial_function (option) lss_walk ::
  "KeywordTree \<Rightarrow> nat \<Rightarrow> nat option \<Rightarrow> (error + nat) option" where
  "lss_walk T state traversed =
     (case traversed of
        None \<Rightarrow> Some (Inl AttributeError)
      | Some t \<Rightarrow>
          (case lookup (transitions (state_at T t)) (symbol (state_at T state)) of
             Some target \<Rightarrow>
               if target \<noteq> state then Some (Inr target)
               else if t = zero_state T then Some (Inr (zero_state T))
               else lss_walk T state (longest_strict_suffix (state_at T t))
           | None \<Rightarrow>
               if t = zero_state T then Some (Inr (zero_state T))
               else lss_walk T state (longest_strict_suffix (state_at T t))))"

declare lss_walk.simps [code]

text \<open>
  The last loop of \<open>search_lss\<close>: every item of \<open>suffix.transitions\<close> whose symbol is not
  a key of \<open>state.transitions\<close> is stored there. The loop runs on the items of the suffix,
  which is another state than \<open>state\<close> (the walk never assigns \<open>state\<close> itself, and the
  zero state has returned before), so the dict it iterates is not the one that grows.
\<close>

fun merge_transitions :: "KeywordTree \<Rightarrow> nat \<Rightarrow> (codepoint \<times> nat) list \<Rightarrow> KeywordTree" where
  "merge_transitions T state [] = T"
| "merge_transitions T state ((symb, nxt) # items) =
     (if map_of (transitions (state_at T state)) symb = None then
        merge_transitions
          (update_state T state (\<lambda>s. s\<lparr>transitions := transitions s @ [(symb, nxt)]\<rparr>))
          state items
      else merge_transitions T state items)"

text \<open>
  \<open>search_lss\<close> calls itself (line 126) when the link of the suffix it found is not yet
  set, and that call can do the same for the suffix it finds: the calls nest, one inside
  the other, as long as the targets found are unresolved. The interpreter bounds the nesting
  of calls by its recursion limit: a call that would exceed it raises \<open>RecursionError\<close>
  instead of running, and nothing in keywordtree.py catches the exception. \<open>depth\<close> is the
  number of nested calls of \<open>search_lss\<close> that the limit admits where
  \<open>search_lss_for_children\<close> calls it (the limit less the frames already on the stack
  there); each nested call has one less. Nothing else that \<open>finalize\<close> runs calls a
  Python function inside \<open>search_lss\<close>, so this is the only place the limit is met.
  A call that raises leaves the tree as the assignments before it have made it.
\<close>

fun search_lss :: "nat \<Rightarrow> KeywordTree \<Rightarrow> nat \<Rightarrow> unit outcome option" where
  "search_lss 0 T state = Some (Inl RecursionError, T)"
| "search_lss (Suc depth) T state =
     (case parent (state_at T state) of
        None \<Rightarrow> Some (Inl AttributeError, T)
      | Some p \<Rightarrow>
          Option.bind (lss_walk T state (longest_strict_suffix (state_at T p)))
            (\<lambda>r. case r of
                   Inl e \<Rightarrow> Some (Inl e, T)
                 | Inr target \<Rightarrow>
                     (let T1 = update_state T state (\<lambda>s. s\<lparr>longest_strict_suffix := Some target\<rparr>);
                          suffix = target
                      in if suffix = zero_state T1 then Some (Inr (), T1)
                         else
                           Option.bind
                             (if longest_strict_suffix (state_at T1 suffix) = None
                              then search_lss depth T1 suffix
                              else Some (Inr (), T1))
                             (\<lambda>(r2, T2). case r2 of
                                 Inl e \<Rightarrow> Some (Inl e, T2)
                               | Inr _ \<Rightarrow>
                                   Some (Inr (), merge_transitions T2 state
                                           (transitions (state_at T2 suffix)))))))"

text \<open>
  The \<open>for child in state.transitions.values()\<close> loop of \<open>search_lss_for_children\<close>,
  over the values the dict had when the loop began. Each time the iterator is asked for the
  next value, it raises \<open>RuntimeError\<close> if the dict has changed its size (\<open>n\<close> is the size
  at the start). \<open>to_process.append(child)\<close> adds at the end of the list.
\<close>

fun process_children ::
  "nat \<Rightarrow> KeywordTree \<Rightarrow> nat \<Rightarrow> nat \<Rightarrow> nat set \<Rightarrow> nat list \<Rightarrow> nat list \<Rightarrow> (nat list) outcome option" where
  "process_children depth T state n processed [] to_process =
     (if length (transitions (state_at T state)) \<noteq> n then Some (Inl RuntimeError, T)
      else Some (Inr to_process, T))"
| "process_children depth T state n processed (child # rest) to_process =
     (if length (transitions (state_at T state)) \<noteq> n then Some (Inl RuntimeError, T)
      else if identifier (state_at T child) \<notin> processed then
        Option.bind (search_lss depth T child)
          (\<lambda>(r, T1). case r of
              Inl e \<Rightarrow> Some (Inl e, T1)
            | Inr _ \<Rightarrow> process_children depth T1 state n processed rest (to_process @ [child]))
      else process_children depth T state n processed rest to_process)"

text \<open>The \<open>while to_process\<close> loop; \<open>to_process.pop()\<close> takes the last element.\<close>

partial_function (option) process_loop ::
  "nat \<Rightarrow> KeywordTree \<Rightarrow> nat set \<Rightarrow> nat list \<Rightarrow> unit outcome option" where
  "process_loop depth T processed to_process =
     (if to_process = [] then Some (Inr (), T)
      else
        (let state = last to_process;
             to_process1 = butlast to_process;
             processed1 = insert (identifier (state_at T state)) processed;
             children = map snd (transitions (state_at T state))
         in Option.bind
              (process_children depth T state (length children) processed1 children to_process1)
              (\<lambda>(r, T1). case r of
                  Inl e \<Rightarrow> Some (Inl e, T1)
                | Inr to_process2 \<Rightarrow> process_loop depth T1 processed1 to_process2)))"

declare process_loop.simps [code]

definition search_lss_for_children :: "nat \<Rightarrow> KeywordTree \<Rightarrow> nat \<Rightarrow> unit outcome option" where
  "search_lss_for_children depth T zero = process_loop depth T {} [zero]"

text \<open>
  \<open>finalize\<close>, called where the recursion limit admits \<open>depth\<close> nested calls of
  \<open>search_lss\<close>. An exception of \<open>search_lss_for_children\<close> leaves \<open>_finalized\<close> as it was.
\<close>

definition finalize :: "nat \<Rightarrow> KeywordTree \<Rightarrow> unit outcome option" where
  "finalize depth T =
     (if finalized T then Some (Inl (ValueError ''KeywordTree has already been finalized.''), T)
      else
        (let T1 = update_state T (zero_state T)
                    (\<lambda>s. s\<lparr>longest_strict_suffix := Some (zero_state T)\<rparr>)
         in Option.bind (search_lss_for_children depth T1 (zero_state T1))
              (\<lambda>(r, T2). case r of
                  Inl e \<Rightarrow> Some (Inl e, T2)
                | Inr _ \<Rightarrow> Some (Inr (), T2\<lparr>finalized := True\<rparr>))))"

subsection \<open>Building an automaton, and main\<close>

text \<open>
  \<open>for i in range(...): kwtree.add(argv[i])\<close>: the keywords are added in order, and an
  exception of \<open>add\<close> ends the loop.
\<close>

fun add_all :: "(str \<Rightarrow> str) \<Rightarrow> KeywordTree \<Rightarrow> str list \<Rightarrow> unit outcome" where
  "add_all lower T [] = (Inr (), T)"
| "add_all lower T (k # ks) =
     (case add lower T k of
        (Inl e, T1) \<Rightarrow> (Inl e, T1)
      | (Inr _, T1) \<Rightarrow> add_all lower T1 ks)"

text \<open>
  The protocol of a client: construct, add every keyword, finalize, then search
  (lines 148 to 154 of keywordtree.py do this with the arguments of the command line).
\<close>

definition build :: "nat \<Rightarrow> (str \<Rightarrow> str) \<Rightarrow> bool \<Rightarrow> str list \<Rightarrow> unit outcome option" where
  "build depth lower ci ks =
     (case add_all lower (KeywordTree_init ci) ks of
        (Inl e, T) \<Rightarrow> Some (Inl e, T)
      | (Inr _, T) \<Rightarrow> finalize depth T)"

definition search_built ::
  "nat \<Rightarrow> (str \<Rightarrow> str) \<Rightarrow> bool \<Rightarrow> str list \<Rightarrow> str \<Rightarrow> (error + str option list) option" where
  "search_built depth lower ci ks text =
     Option.bind (build depth lower ci ks)
       (\<lambda>(r, T). case r of Inl e \<Rightarrow> Some (Inl e) | Inr _ \<Rightarrow> search_all lower T text)"

definition search_built_by_position ::
  "nat \<Rightarrow> (str \<Rightarrow> str) \<Rightarrow> bool \<Rightarrow> str list \<Rightarrow> str \<Rightarrow> (error + str option list list) option" where
  "search_built_by_position depth lower ci ks text =
     Option.bind (build depth lower ci ks)
       (\<lambda>(r, T). case r of Inl e \<Rightarrow> Some (Inl e) | Inr _ \<Rightarrow> search_all_by_position lower T text)"

text \<open>
  \<open>main\<close>. The command line is \<open>argv\<close>. The file system gives, for a path, what the three
  statements of the \<open>try\<close> block come to: the lines \<open>readlines()\<close> returns, or the exception
  that \<open>open\<close> or \<open>readlines\<close> raises (an \<open>OSError\<close> for a file that cannot be opened, a
  \<open>ValueError\<close> for one that cannot be decoded). The \<open>except ValueError\<close> clause replaces
  a \<open>ValueError\<close> by \<open>ValueError('File error')\<close>; any other exception passes through, as do
  the exceptions of \<open>finalize\<close> and \<open>search_all\<close>. What \<open>main\<close> prints is its result: the
  usage text of \<open>readme()\<close>, or the list \<open>ret\<close>.
\<close>

datatype printed = Readme | Line_numbers "nat list"

text \<open>The loop over the lines of the file; \<open>i\<close> is the index of the first line of \<open>filelines\<close>.\<close>

fun main_lines ::
  "(str \<Rightarrow> str) \<Rightarrow> KeywordTree \<Rightarrow> str \<Rightarrow> str list \<Rightarrow> nat \<Rightarrow> str list \<Rightarrow> nat list
     \<Rightarrow> (error + nat list) option" where
  "main_lines lower T connector kw i [] ret = Some (Inr ret)"
| "main_lines lower T connector kw i (line # filelines) ret =
     (case search_all lower T line of
        None \<Rightarrow> None
      | Some (Inl e) \<Rightarrow> Some (Inl e)
      | Some (Inr result) \<Rightarrow>
          (if connector = ascii ''and'' then
             (if list_all (\<lambda>elem. Some elem \<in> set result) kw
              then main_lines lower T connector kw (i + 1) filelines (ret @ [i + 1])
              else main_lines lower T connector kw (i + 1) filelines ret)
           else
             (if list_ex (\<lambda>elem. Some elem \<in> set result) kw
              then main_lines lower T connector kw (i + 1) filelines (ret @ [i + 1])
              else main_lines lower T connector kw (i + 1) filelines ret)))"

definition main ::
  "nat \<Rightarrow> (str \<Rightarrow> str) \<Rightarrow> str list \<Rightarrow> (str \<Rightarrow> error + str list) \<Rightarrow> (error + printed) option" where
  "main depth lower argv fs =
     (let args = length argv
      in if args < 6 then Some (Inr Readme)
         else if argv ! 2 \<notin> set [ascii ''true'', ascii ''false''] then Some (Inr Readme)
         else if argv ! 3 \<notin> set [ascii ''and'', ascii ''or''] then Some (Inr Readme)
         else
           (let kw = drop 4 argv
            in case fs (argv ! 1) of
                 Inl e \<Rightarrow>
                   (case e of
                      ValueError m \<Rightarrow> Some (Inl (ValueError ''File error''))
                    | _ \<Rightarrow> Some (Inl e))
               | Inr filelines \<Rightarrow>
                   (let kwtree = (if argv ! 2 = ascii ''false'' then KeywordTree_init True
                                  else KeywordTree_init False)
                    in case add_all lower kwtree (drop 2 argv) of
                         (Inl e, T1) \<Rightarrow> Some (Inl e)
                       | (Inr _, T1) \<Rightarrow>
                           Option.bind (finalize depth T1)
                             (\<lambda>(r, T2). case r of
                                 Inl e \<Rightarrow> Some (Inl e)
                               | Inr _ \<Rightarrow>
                                   map_option (map_sum id Line_numbers)
                                     (main_lines lower T2 (argv ! 3) kw 0 filelines [])))))"

text \<open>
  A file system with one file that can be read; no other path can be opened.
\<close>

definition one_file :: "str \<Rightarrow> str list \<Rightarrow> str \<Rightarrow> error + str list" where
  "one_file path filelines p = (if p = path then Inr filelines else Inl OSError)"

subsection \<open>The brute-force search of the specification\<close>

text \<open>
  Every keyword is compared with every substring of the text that ends at position \<open>i\<close>
  (the substrings that start at \<open>0, \<dots>, i\<close>); each equality is one report.
\<close>

definition brute_force_at :: "str list \<Rightarrow> str \<Rightarrow> nat \<Rightarrow> str list" where
  "brute_force_at ks text i =
     concat (map (\<lambda>start. filter (\<lambda>k. k = take (i + 1 - start) (drop start text)) ks)
                 [0..<i + 1])"

section \<open>Invariants\<close>

text \<open>The fields of the state behind a reference.\<close>

abbreviation trans_of :: "KeywordTree \<Rightarrow> nat \<Rightarrow> (codepoint \<times> nat) list" where
  "trans_of T a \<equiv> transitions (state_at T a)"
abbreviation lss_of :: "KeywordTree \<Rightarrow> nat \<Rightarrow> nat option" where
  "lss_of T a \<equiv> longest_strict_suffix (state_at T a)"
abbreviation parent_of :: "KeywordTree \<Rightarrow> nat \<Rightarrow> nat option" where
  "parent_of T a \<equiv> parent (state_at T a)"
abbreviation symbol_of :: "KeywordTree \<Rightarrow> nat \<Rightarrow> codepoint option" where
  "symbol_of T a \<equiv> symbol (state_at T a)"

text \<open>
  The shape of a tree that \<open>add\<close> has built, relative to a labelling \<open>P\<close> of the states
  with the word that leads from the zero state to them: the allocated addresses are those
  below the counter; every state but the zero state is the child of its parent on its
  symbol; every transition leads to an allocated state other than the zero state, labelled
  with a suffix of the source's word extended by the symbol (for a child, the word itself).
\<close>

definition allocated :: "KeywordTree \<Rightarrow> bool" where
  "allocated T \<longleftrightarrow> zero_state T = 0 \<and> 0 < counter T \<and> (\<forall>a. heap T a \<noteq> None \<longleftrightarrow> a < counter T)
     \<and> (\<forall>a<counter T. identifier (state_at T a) = a)"

definition rooted :: "(nat \<Rightarrow> str) \<Rightarrow> KeywordTree \<Rightarrow> bool" where
  "rooted P T \<longleftrightarrow> P 0 = [] \<and> parent_of T 0 = None \<and> symbol_of T 0 = None
     \<and> (\<forall>a<counter T. a \<noteq> 0 \<longrightarrow>
          (\<exists>p c. p < counter T \<and> parent_of T a = Some p \<and> symbol_of T a = Some c
             \<and> P a = P p @ [c] \<and> map_of (trans_of T p) c = Some a))"

definition edges_ok :: "(nat \<Rightarrow> str) \<Rightarrow> KeywordTree \<Rightarrow> bool" where
  "edges_ok P T \<longleftrightarrow> (\<forall>a<counter T. distinct (map fst (trans_of T a))
     \<and> (\<forall>c x. (c, x) \<in> set (trans_of T a) \<longrightarrow> x < counter T \<and> x \<noteq> 0 \<and> symbol_of T x = Some c
           \<and> suffix (P x) (P a @ [c])))"

definition skeleton :: "(nat \<Rightarrow> str) \<Rightarrow> KeywordTree \<Rightarrow> bool" where
  "skeleton P T \<longleftrightarrow> allocated T \<and> rooted P T \<and> edges_ok P T"

text \<open>Before \<open>finalize\<close>: no suffix link is set, and every transition leads to a child.\<close>

definition unresolved :: "KeywordTree \<Rightarrow> bool" where
  "unresolved T \<longleftrightarrow> (\<forall>a<counter T. lss_of T a = None
      \<and> (\<forall>c x. (c, x) \<in> set (trans_of T a) \<longrightarrow> parent_of T x = Some a))"

text \<open>The \<open>except KeyError\<close> branch of \<open>add\<close>: one new state below \<open>cur\<close>.\<close>

definition grow :: "KeywordTree \<Rightarrow> nat \<Rightarrow> codepoint \<Rightarrow> KeywordTree" where
  "grow T cur c = update_state
      (T\<lparr>heap := (heap T)(counter T \<mapsto> State_init (counter T) (Some c) (Some cur) False),
         counter := counter T + 1\<rparr>) cur
      (\<lambda>s. s\<lparr>transitions := transitions s @ [(c, counter T)]\<rparr>)"

text \<open>The state reached from \<open>cur\<close> along a word, if the transitions lead that far.\<close>

fun follow :: "KeywordTree \<Rightarrow> nat \<Rightarrow> str \<Rightarrow> nat option" where
  "follow T cur [] = Some cur"
| "follow T cur (c # w) =
     (case map_of (trans_of T cur) c of None \<Rightarrow> None | Some n \<Rightarrow> follow T n w)"

text \<open>What \<open>add\<close> keeps of the tree it extends.\<close>

definition extends :: "(nat \<Rightarrow> str) \<Rightarrow> KeywordTree \<Rightarrow> (nat \<Rightarrow> str) \<Rightarrow> KeywordTree \<Rightarrow> bool" where
  "extends P T P' T' \<longleftrightarrow> counter T \<le> counter T'
     \<and> finalized T' = finalized T \<and> case_insensitive T' = case_insensitive T
     \<and> (\<forall>a<counter T. P' a = P a
           \<and> success (state_at T' a) = success (state_at T a)
           \<and> matched_keyword (state_at T' a) = matched_keyword (state_at T a)
           \<and> (\<forall>d x. map_of (trans_of T a) d = Some x \<longrightarrow> map_of (trans_of T' a) d = Some x))
     \<and> (\<forall>a. counter T \<le> a \<and> a < counter T' \<longrightarrow>
           \<not> success (state_at T' a) \<and> matched_keyword (state_at T' a) = None)"

text \<open>
  The form in which the automaton compares a keyword or a text, and the keywords of a list
  that have a given form (a keyword whose form is empty is ignored by \<open>add\<close>).
\<close>

definition normal_form :: "(str \<Rightarrow> str) \<Rightarrow> bool \<Rightarrow> str \<Rightarrow> str" where
  "normal_form lower ci k = (if ci then lower k else k)"

definition matching :: "(str \<Rightarrow> str) \<Rightarrow> bool \<Rightarrow> str list \<Rightarrow> str \<Rightarrow> str list" where
  "matching lower ci ks w = filter (\<lambda>k. normal_form lower ci k \<noteq> [] \<and> normal_form lower ci k = w) ks"

text \<open>
  The terminal states of the tree built from the keywords \<open>ks\<close>: every keyword has its
  state, every state but the zero state has a word no longer than the form of some keyword,
  a state is terminal exactly when its word is the form of a keyword, and it stores the last
  keyword added with that form.
\<close>

definition terminals :: "(str \<Rightarrow> str) \<Rightarrow> bool \<Rightarrow> str list \<Rightarrow> (nat \<Rightarrow> str) \<Rightarrow> KeywordTree \<Rightarrow> bool" where
  "terminals lower ci ks P T \<longleftrightarrow>
     (\<forall>k\<in>set ks. normal_form lower ci k \<noteq> [] \<longrightarrow> (\<exists>a<counter T. P a = normal_form lower ci k))
     \<and> (\<forall>a<counter T. a \<noteq> 0 \<longrightarrow> (\<exists>k\<in>set ks. length (P a) \<le> length (normal_form lower ci k)))
     \<and> (\<forall>a<counter T. success (state_at T a) = (matching lower ci ks (P a) \<noteq> [])
           \<and> matched_keyword (state_at T a) =
               (if matching lower ci ks (P a) = [] then None else Some (last (matching lower ci ks (P a)))))"

definition built_inv :: "(str \<Rightarrow> str) \<Rightarrow> bool \<Rightarrow> str list \<Rightarrow> (nat \<Rightarrow> str) \<Rightarrow> KeywordTree \<Rightarrow> bool" where
  "built_inv lower ci ks P T \<longleftrightarrow> skeleton P T \<and> unresolved T \<and> terminals lower ci ks P T
     \<and> \<not> finalized T \<and> case_insensitive T = ci"

text \<open>The tree after \<open>KeywordTree(ci)\<close> and \<open>add\<close> of every keyword, before \<open>finalize\<close>.\<close>

definition built :: "(str \<Rightarrow> str) \<Rightarrow> bool \<Rightarrow> str list \<Rightarrow> KeywordTree" where
  "built lower ci ks = snd (add_all lower (KeywordTree_init ci) ks)"

text \<open>The transitions of a state after the last loop of \<open>search_lss\<close>.\<close>

fun merge_list :: "(codepoint \<times> nat) list \<Rightarrow> (codepoint \<times> nat) list \<Rightarrow> (codepoint \<times> nat) list" where
  "merge_list tr [] = tr"
| "merge_list tr ((c, x) # items) =
     (if map_of tr c = None then merge_list (tr @ [(c, x)]) items else merge_list tr items)"

text \<open>
  The invariant of \<open>finalize\<close>. \<open>D\<close> is the set of done states: their link is set and
  is the result of the walk of \<open>search_lss\<close>, it leads to a done state with a strictly
  shorter word (a proper suffix), and the transitions of the link's target have been merged.
  The other states still have the transitions \<open>add\<close> gave them.
\<close>

definition own_only :: "KeywordTree \<Rightarrow> nat \<Rightarrow> bool" where
  "own_only T a \<longleftrightarrow> (\<forall>c x. (c, x) \<in> set (trans_of T a) \<longrightarrow> parent_of T x = Some a)"

definition done_node :: "(nat \<Rightarrow> str) \<Rightarrow> nat set \<Rightarrow> KeywordTree \<Rightarrow> nat \<Rightarrow> bool" where
  "done_node P D T a \<longleftrightarrow>
     (\<forall>c x. (c, x) \<in> set (trans_of T a) \<longrightarrow> (\<exists>q\<in>D. parent_of T x = Some q))
     \<and> (a \<noteq> 0 \<longrightarrow>
           (\<exists>p f. parent_of T a = Some p \<and> p \<in> D \<and> lss_of T a = Some f \<and> f \<in> D
              \<and> strict_suffix (P f) (P a)
              \<and> lss_walk T a (lss_of T p) = Some (Inr f)
              \<and> (f \<noteq> 0 \<longrightarrow>
                   (\<forall>c x. map_of (trans_of T f) c = Some x \<longrightarrow>
                      (\<exists>y. map_of (trans_of T a) c = Some y
                           \<and> (y = x \<or> parent_of T y = Some a))))))"

definition fin_inv :: "(nat \<Rightarrow> str) \<Rightarrow> nat set \<Rightarrow> KeywordTree \<Rightarrow> bool" where
  "fin_inv P D T \<longleftrightarrow>
     skeleton P T \<and> 0 \<in> D \<and> (\<forall>a\<in>D. a < counter T) \<and> lss_of T 0 = Some 0
     \<and> (\<forall>a<counter T. a \<notin> D \<longrightarrow> own_only T a)
     \<and> (\<forall>a\<in>D. done_node P D T a)"

text \<open>What \<open>finalize\<close> never changes.\<close>

definition same_static :: "KeywordTree \<Rightarrow> KeywordTree \<Rightarrow> bool" where
  "same_static T T' \<longleftrightarrow> counter T' = counter T \<and> zero_state T' = zero_state T
     \<and> case_insensitive T' = case_insensitive T
     \<and> (\<forall>a. (heap T' a = None) = (heap T a = None))
     \<and> (\<forall>a. identifier (state_at T' a) = identifier (state_at T a)
            \<and> symbol_of T' a = symbol_of T a \<and> parent_of T' a = parent_of T a
            \<and> success (state_at T' a) = success (state_at T a)
            \<and> matched_keyword (state_at T' a) = matched_keyword (state_at T a))"

text \<open>What a call of \<open>search_lss\<close> on \<open>s\<close> establishes.\<close>

definition lss_post ::
  "(nat \<Rightarrow> str) \<Rightarrow> nat set \<Rightarrow> KeywordTree \<Rightarrow> nat \<Rightarrow> nat set \<Rightarrow> KeywordTree \<Rightarrow> bool" where
  "lss_post P D T s D' T' \<longleftrightarrow>
     fin_inv P D' T' \<and> D \<subseteq> D' \<and> s \<in> D'
     \<and> (\<forall>a\<in>D. state_at T' a = state_at T a)
     \<and> (\<forall>a. a \<notin> D' \<longrightarrow> state_at T' a = state_at T a)
     \<and> (\<forall>a\<in>D'. a \<notin> D \<longrightarrow> length (P a) \<le> length (P s))
     \<and> same_static T T'"

text \<open>
  Between two calls of \<open>search_lss\<close> no state outside the done set has a link. The
  invariant of the \<open>while to_process\<close> loop: a processed state has each of its transition
  targets processed or on the stack, and above it when the state is itself on the stack.
\<close>

definition quiet :: "nat set \<Rightarrow> KeywordTree \<Rightarrow> bool" where
  "quiet D T \<longleftrightarrow> (\<forall>a<counter T. a \<notin> D \<longrightarrow> lss_of T a = None)"

definition loop_inv ::
  "(nat \<Rightarrow> str) \<Rightarrow> nat set \<Rightarrow> KeywordTree \<Rightarrow> nat set \<Rightarrow> nat list \<Rightarrow> bool" where
  "loop_inv P D T processed stack \<longleftrightarrow>
     fin_inv P D T \<and> quiet D T \<and> set stack \<subseteq> D \<and> processed \<subseteq> D
     \<and> (0 \<in> processed \<or> 0 \<in> set stack)
     \<and> (\<forall>S\<in>processed. \<forall>c x. (c, x) \<in> set (trans_of T S) \<longrightarrow> x \<in> processed \<or> x \<in> set stack)
     \<and> (\<forall>i<length stack. stack ! i \<in> processed \<longrightarrow>
           (\<forall>c x. (c, x) \<in> set (trans_of T (stack ! i)) \<longrightarrow>
              x \<in> processed \<or> x \<in> set (drop (Suc i) stack)))"

text \<open>The tree after \<open>finalize\<close>: every state is done.\<close>

definition finalized_inv :: "(str \<Rightarrow> str) \<Rightarrow> bool \<Rightarrow> str list \<Rightarrow> (nat \<Rightarrow> str) \<Rightarrow> KeywordTree \<Rightarrow> bool" where
  "finalized_inv lower ci ks P T \<longleftrightarrow> fin_inv P {..<counter T} T \<and> terminals lower ci ks P T
     \<and> finalized T \<and> case_insensitive T = ci"

text \<open>
  The inner loop of \<open>search_all\<close> started at \<open>s\<close> returns, and appends the keywords of
  the states \<open>ns\<close>: terminal states whose words are suffixes of the word of \<open>s\<close>, each
  strictly longer than those after it.
\<close>

abbreviation keyword_at :: "KeywordTree \<Rightarrow> nat \<Rightarrow> str option" where
  "keyword_at T n \<equiv> matched_keyword (state_at T n)"

definition reported_from :: "(nat \<Rightarrow> str) \<Rightarrow> KeywordTree \<Rightarrow> nat \<Rightarrow> nat list \<Rightarrow> bool" where
  "reported_from P T s ns \<longleftrightarrow>
     (\<forall>ret. report_chain T (Some s) ret = Some (Inr (ret @ map (keyword_at T) ns)))
     \<and> (\<forall>n\<in>set ns. n < counter T \<and> n \<noteq> 0 \<and> success (state_at T n) \<and> suffix (P n) (P s))
     \<and> sorted_wrt (\<lambda>a b. length (P b) < length (P a)) ns"

text \<open>
  The scan of a text from the state \<open>cur\<close>, reached after reading \<open>pre\<close>, returns; the
  states whose keywords it reports at index \<open>i\<close> are \<open>nss ! i\<close>, and their words are
  suffixes of the text read up to that index.
\<close>

definition scan_result ::
  "(nat \<Rightarrow> str) \<Rightarrow> KeywordTree \<Rightarrow> nat \<Rightarrow> str \<Rightarrow> str \<Rightarrow> nat list list \<Rightarrow> bool" where
  "scan_result P T cur pre text nss \<longleftrightarrow>
     length nss = length text
     \<and> search_groups T cur text = Some (Inr (map (map (keyword_at T)) nss))
     \<and> (\<forall>ret. search_loop T cur text ret = Some (Inr (ret @ concat (map (map (keyword_at T)) nss))))
     \<and> (\<forall>i<length text. \<forall>n\<in>set (nss ! i).
           n < counter T \<and> n \<noteq> 0 \<and> success (state_at T n)
           \<and> suffix (P n) (pre @ take (Suc i) text))
     \<and> (\<forall>i<length text. sorted_wrt (\<lambda>a b. length (P b) < length (P a)) (nss ! i))"




text \<open>The predicate of \<open>main\<close> on the result of one line: all keywords, or any.\<close>

definition combination :: "str \<Rightarrow> str list \<Rightarrow> str option list \<Rightarrow> bool" where
  "combination connector kw result =
     (if connector = ascii ''and'' then (\<forall>k\<in>set kw. Some k \<in> set result)
      else (\<exists>k\<in>set kw. Some k \<in> set result))"

section \<open>Building the trie\<close>

lemma state_at_update_state [simp]:
  "state_at (update_state T a f) b = (if b = a then f (state_at T a) else state_at T b)"
  by (simp add: state_at_def update_state_def)

lemma update_state_fields [simp]:
  "counter (update_state T a f) = counter T"
  "zero_state (update_state T a f) = zero_state T"
  "finalized (update_state T a f) = finalized T"
  "case_insensitive (update_state T a f) = case_insensitive T"
  by (simp_all add: update_state_def)

lemma heap_update_state [simp]:
  "heap (update_state T a f) b = (if b = a then Some (f (state_at T a)) else heap T b)"
  by (simp add: update_state_def)

lemma map_of_snoc:
  "map_of (xs @ [(k, v)]) k' =
     (case map_of xs k' of Some w \<Rightarrow> Some w | None \<Rightarrow> if k' = k then Some v else None)"
  by (induction xs) auto

lemma add_chars_Cons:
  "add_chars T cur (c # w) =
     (case map_of (trans_of T cur) c of Some n \<Rightarrow> add_chars T n w
      | None \<Rightarrow> add_chars (grow T cur c) (counter T) w)"
  by (cases "map_of (trans_of T cur) c") (simp_all add: grow_def Let_def)

declare add_chars.simps(2) [simp del]

lemma state_at_grow:
  "cur < counter T \<Longrightarrow> state_at (grow T cur c) a =
     (if a = cur then (state_at T cur)\<lparr>transitions := trans_of T cur @ [(c, counter T)]\<rparr>
      else if a = counter T then State_init (counter T) (Some c) (Some cur) False
      else state_at T a)"
  by (auto simp: grow_def state_at_def update_state_def)

lemma grow_fields [simp]:
  "counter (grow T cur c) = Suc (counter T)"
  "zero_state (grow T cur c) = zero_state T"
  "finalized (grow T cur c) = finalized T"
  "case_insensitive (grow T cur c) = case_insensitive T"
  by (simp_all add: grow_def)

lemma heap_grow:
  "(heap (grow T cur c) a = None) \<longleftrightarrow> a \<noteq> cur \<and> a \<noteq> counter T \<and> heap T a = None"
  by (auto simp: grow_def update_state_def)

lemma allocated_grow:
  assumes "allocated T" "cur < counter T"
  shows "allocated (grow T cur c)"
proof -
  have "heap (grow T cur c) a \<noteq> None \<longleftrightarrow> a < counter (grow T cur c)" for a
    using assms unfolding allocated_def by (auto simp: heap_grow less_Suc_eq)
  moreover have "identifier (state_at (grow T cur c) a) = a" if "a < counter (grow T cur c)" for a
    using assms that unfolding allocated_def
    by (auto simp: state_at_grow State_init_def less_Suc_eq)
  ultimately show ?thesis using assms unfolding allocated_def by simp
qed

lemma rooted_grow:
  assumes al: "allocated T" and ro: "rooted P T" and cur: "cur < counter T"
    and new: "map_of (trans_of T cur) c = None"
  shows "rooted (P(counter T := P cur @ [c])) (grow T cur c)"
proof -
  let ?P = "P(counter T := P cur @ [c])" and ?T = "grow T cur c"
  have pos: "0 < counter T" using al by (simp add: allocated_def)
  have r0: "?P 0 = []" "parent_of ?T 0 = None" "symbol_of ?T 0 = None"
    using ro pos cur by (auto simp: rooted_def state_at_grow)
  have step: "\<exists>p d. p < counter ?T \<and> parent_of ?T a = Some p \<and> symbol_of ?T a = Some d
             \<and> ?P a = ?P p @ [d] \<and> map_of (trans_of ?T p) d = Some a"
    if a: "a < counter ?T" "a \<noteq> 0" for a
  proof (cases "a = counter T")
    case True
    have "map_of (trans_of ?T cur) c = Some a"
      using cur new True by (simp add: state_at_grow map_of_snoc del: map_of_append)
    moreover have "parent_of ?T a = Some cur" "symbol_of ?T a = Some c"
      using cur True by (auto simp: state_at_grow State_init_def)
    moreover have "?P a = ?P cur @ [c]" using cur True by simp
    ultimately show ?thesis using cur by (intro exI[of _ cur] exI[of _ c]) simp
  next
    case False
    then have lt: "a < counter T" using a by simp
    then obtain p d where pd: "p < counter T" "parent_of T a = Some p" "symbol_of T a = Some d"
      "P a = P p @ [d]" "map_of (trans_of T p) d = Some a"
      using ro a unfolding rooted_def by blast
    have "map_of (trans_of ?T p) d = Some a"
      using pd cur by (auto simp: state_at_grow map_of_snoc simp del: map_of_append)
    moreover have "parent_of ?T a = Some p" "symbol_of ?T a = Some d"
      using pd cur lt False by (auto simp: state_at_grow)
    moreover have "?P a = ?P p @ [d]" using pd lt by simp
    ultimately show ?thesis using pd by (intro exI[of _ p] exI[of _ d]) simp
  qed
  show ?thesis unfolding rooted_def using r0 step by blast
qed

lemma edges_ok_grow:
  assumes al: "allocated T" and ed: "edges_ok P T" and cur: "cur < counter T"
    and new: "map_of (trans_of T cur) c = None"
  shows "edges_ok (P(counter T := P cur @ [c])) (grow T cur c)"
proof -
  let ?P = "P(counter T := P cur @ [c])" and ?T = "grow T cur c"
  have pos: "0 < counter T" using al by (simp add: allocated_def)
  have old: "distinct (map fst (trans_of T a))"
     "\<And>d x. (d, x) \<in> set (trans_of T a) \<Longrightarrow> x < counter T \<and> x \<noteq> 0 \<and> symbol_of T x = Some d
           \<and> suffix (P x) (P a @ [d])" if "a < counter T" for a
    using ed that unfolding edges_ok_def by auto
  have step: "distinct (map fst (trans_of ?T a)) \<and>
     (\<forall>d x. (d, x) \<in> set (trans_of ?T a) \<longrightarrow> x < counter ?T \<and> x \<noteq> 0 \<and> symbol_of ?T x = Some d
           \<and> suffix (?P x) (?P a @ [d]))" if a: "a < counter ?T" for a
  proof (cases "a = counter T")
    case True
    then show ?thesis using cur by (simp add: state_at_grow State_init_def)
  next
    case False
    then have lt: "a < counter T" using a by simp
    have keep: "x < counter ?T \<and> x \<noteq> 0 \<and> symbol_of ?T x = Some d \<and> suffix (?P x) (?P a @ [d])"
      if "(d, x) \<in> set (trans_of T a)" for d x
    proof -
      have o: "x < counter T" "x \<noteq> 0" "symbol_of T x = Some d" "suffix (P x) (P a @ [d])"
        using old(2)[OF lt that] by auto
      then show ?thesis using lt cur by (auto simp: state_at_grow)
    qed
    show ?thesis
    proof (cases "a = cur")
      case True
      have notin: "c \<notin> fst ` set (trans_of T cur)" using new by (simp add: map_of_eq_None_iff)
      have d: "distinct (map fst (trans_of ?T a))"
        using True cur old(1)[OF cur] notin by (simp add: state_at_grow)
      have n: "counter T < counter ?T \<and> counter T \<noteq> 0 \<and> symbol_of ?T (counter T) = Some c
            \<and> suffix (?P (counter T)) (?P a @ [c])"
        using True cur pos by (simp add: state_at_grow State_init_def)
      have "(e, x) = (c, counter T) \<or> (e, x) \<in> set (trans_of T a)"
        if "(e, x) \<in> set (trans_of ?T a)" for e x
        using that True cur by (simp add: state_at_grow)
      then show ?thesis using d n keep by blast
    next
      case False
      then have "trans_of ?T a = trans_of T a" using cur \<open>a \<noteq> counter T\<close> by (simp add: state_at_grow)
      then show ?thesis using old(1)[OF lt] keep by simp
    qed
  qed
  show ?thesis unfolding edges_ok_def using step by blast
qed

lemma skeleton_grow:
  assumes "skeleton P T" "cur < counter T" "map_of (trans_of T cur) c = None"
  shows "skeleton (P(counter T := P cur @ [c])) (grow T cur c)"
  using assms allocated_grow rooted_grow edges_ok_grow unfolding skeleton_def by blast

lemma unresolved_grow:
  assumes al: "allocated T" and un: "unresolved T" and cur: "cur < counter T"
      and ed: "edges_ok P T"
  shows "unresolved (grow T cur c)"
proof -
  let ?T = "grow T cur c"
  have tgt: "x < counter T" if "a < counter T" "(d, x) \<in> set (trans_of T a)" for a d x
    using ed that unfolding edges_ok_def by auto
  have step: "lss_of ?T a = None \<and> (\<forall>d x. (d, x) \<in> set (trans_of ?T a) \<longrightarrow> parent_of ?T x = Some a)"
    if a: "a < counter ?T" for a
  proof (cases "a = counter T")
    case True
    then show ?thesis using cur by (simp add: state_at_grow State_init_def)
  next
    case False
    then have lt: "a < counter T" using a by simp
    have o: "lss_of T a = None" "\<And>d x. (d, x) \<in> set (trans_of T a) \<Longrightarrow> parent_of T x = Some a"
      using un lt unfolding unresolved_def by auto
    have keep: "parent_of ?T x = Some a" if "(d, x) \<in> set (trans_of T a)" for d x
      using o(2)[OF that] tgt[OF lt that] cur by (auto simp: state_at_grow)
    have l: "lss_of ?T a = None" using o(1) cur False by (auto simp: state_at_grow)
    show ?thesis
    proof (cases "a = cur")
      case True
      have "(e, x) = (c, counter T) \<or> (e, x) \<in> set (trans_of T a)"
        if "(e, x) \<in> set (trans_of ?T a)" for e x
        using that True cur by (simp add: state_at_grow)
      moreover have "parent_of ?T (counter T) = Some a"
        using True cur by (simp add: state_at_grow State_init_def)
      ultimately show ?thesis using l keep by blast
    next
      case False
      then have "trans_of ?T a = trans_of T a" using cur \<open>a \<noteq> counter T\<close> by (simp add: state_at_grow)
      then show ?thesis using l keep by simp
    qed
  qed
  show ?thesis unfolding unresolved_def using step by blast
qed

lemma extendsD:
  assumes "extends P T P' T'"
  shows "counter T \<le> counter T'" "finalized T' = finalized T"
    "case_insensitive T' = case_insensitive T"
    "\<And>a. a < counter T \<Longrightarrow> P' a = P a"
    "\<And>a. a < counter T \<Longrightarrow> success (state_at T' a) = success (state_at T a)"
    "\<And>a. a < counter T \<Longrightarrow> matched_keyword (state_at T' a) = matched_keyword (state_at T a)"
    "\<And>a d x. a < counter T \<Longrightarrow> map_of (trans_of T a) d = Some x \<Longrightarrow> map_of (trans_of T' a) d = Some x"
    "\<And>a. counter T \<le> a \<Longrightarrow> a < counter T' \<Longrightarrow> \<not> success (state_at T' a)"
    "\<And>a. counter T \<le> a \<Longrightarrow> a < counter T' \<Longrightarrow> matched_keyword (state_at T' a) = None"
  using assms unfolding extends_def by blast+

lemma extends_refl: "extends P T P T"
  by (auto simp: extends_def)

lemma extends_trans:
  assumes "extends P T P1 T1" "extends P1 T1 P2 T2"
  shows "extends P T P2 T2"
proof -
  have le: "counter T \<le> counter T1" "counter T1 \<le> counter T2"
    using assms by (auto simp: extends_def)
  have old: "P2 a = P a \<and> success (state_at T2 a) = success (state_at T a)
       \<and> matched_keyword (state_at T2 a) = matched_keyword (state_at T a)
       \<and> (\<forall>d x. map_of (trans_of T a) d = Some x \<longrightarrow> map_of (trans_of T2 a) d = Some x)"
    if "a < counter T" for a
  proof -
    have "a < counter T1" using that le by simp
    then show ?thesis using assms that unfolding extends_def by simp
  qed
  have new: "\<not> success (state_at T2 a) \<and> matched_keyword (state_at T2 a) = None"
    if "counter T \<le> a" "a < counter T2" for a
  proof (cases "a < counter T1")
    case True
    then show ?thesis using assms that unfolding extends_def by simp
  next
    case False
    then show ?thesis using assms that unfolding extends_def by simp
  qed
  show ?thesis unfolding extends_def using le old new assms
    by (simp add: extends_def)
qed

lemma extends_grow:
  assumes "cur < counter T"
  shows "extends P T (P(counter T := P cur @ [c])) (grow T cur c)"
  unfolding extends_def using assms
  by (auto simp: state_at_grow State_init_def map_of_snoc simp del: map_of_append)

lemma skeleton_target:
  assumes "skeleton P T" "a < counter T" "map_of (trans_of T a) c = Some x"
  shows "x < counter T" "x \<noteq> 0" "symbol_of T x = Some c" "suffix (P x) (P a @ [c])"
proof -
  have "(c, x) \<in> set (trans_of T a)" using assms(3) by (rule map_of_SomeD)
  then show "x < counter T" "x \<noteq> 0" "symbol_of T x = Some c" "suffix (P x) (P a @ [c])"
    using assms(1,2) unfolding skeleton_def edges_ok_def by blast+
qed

lemma skeleton_parent:
  assumes "skeleton P T" "a < counter T" "a \<noteq> 0"
  obtains p c where "p < counter T" "parent_of T a = Some p" "symbol_of T a = Some c"
     "P a = P p @ [c]" "map_of (trans_of T p) c = Some a"
  using assms unfolding skeleton_def rooted_def by blast

lemma skeleton_root:
  assumes "skeleton P T"
  shows "zero_state T = 0" "0 < counter T" "P 0 = []" "parent_of T 0 = None" "symbol_of T 0 = None"
  using assms unfolding skeleton_def rooted_def allocated_def by auto

lemma path_nonempty:
  assumes "skeleton P T" "a < counter T" "a \<noteq> 0"
  shows "P a \<noteq> []"
  using skeleton_parent[OF assms] by (metis snoc_eq_iff_butlast)

lemma path_inj_aux:
  assumes sk: "skeleton P T"
  shows "a < counter T \<Longrightarrow> b < counter T \<Longrightarrow> P a = w \<Longrightarrow> P b = w \<Longrightarrow> a = b"
proof (induction w arbitrary: a b rule: rev_induct)
  case Nil
  then show ?case using path_nonempty[OF sk] by metis
next
  case (snoc c w)
  have a0: "a \<noteq> 0"
  proof
    assume "a = 0"
    then have "P a = []" using skeleton_root(3)[OF sk] by simp
    then show False using snoc.prems(3) by simp
  qed
  have b0: "b \<noteq> 0"
  proof
    assume "b = 0"
    then have "P b = []" using skeleton_root(3)[OF sk] by simp
    then show False using snoc.prems(4) by simp
  qed
  obtain pa ca where pa: "pa < counter T" "P a = P pa @ [ca]" "map_of (trans_of T pa) ca = Some a"
    using skeleton_parent[OF sk snoc.prems(1) a0] by metis
  obtain pb cb where pb: "pb < counter T" "P b = P pb @ [cb]" "map_of (trans_of T pb) cb = Some b"
    using skeleton_parent[OF sk snoc.prems(2) b0] by metis
  have "P pa = w" "P pb = w" "ca = c" "cb = c" using pa(2) pb(2) snoc.prems(3,4) by auto
  then have "pa = pb" using snoc.IH[OF pa(1) pb(1)] by simp
  then show ?case using pa(3) pb(3) \<open>ca = c\<close> \<open>cb = c\<close> by simp
qed

lemma path_inj:
  assumes "skeleton P T" "a < counter T" "b < counter T" "P a = P b"
  shows "a = b"
  using path_inj_aux[OF assms(1-3) assms(4) refl] .

lemma unresolved_child_path:
  assumes sk: "skeleton P T" and un: "unresolved T" and a: "a < counter T"
    and m: "map_of (trans_of T a) c = Some x"
  shows "P x = P a @ [c]"
proof -
  have x: "x < counter T" "x \<noteq> 0" "symbol_of T x = Some c"
    using skeleton_target[OF sk a m] by auto
  have "(c, x) \<in> set (trans_of T a)" using m by (rule map_of_SomeD)
  then have par: "parent_of T x = Some a" using un a unfolding unresolved_def by blast
  obtain p d where "parent_of T x = Some p" "symbol_of T x = Some d" "P x = P p @ [d]"
    using skeleton_parent[OF sk x(1,2)] by metis
  then show ?thesis using par x(3) by simp
qed

lemma add_chars_props:
  assumes "skeleton P T" "unresolved T" "cur < counter T" "add_chars T cur w = (T', n)"
  shows "\<exists>P'. skeleton P' T' \<and> unresolved T' \<and> extends P T P' T' \<and> n < counter T'
            \<and> P' n = P cur @ w \<and> follow T' cur w = Some n
            \<and> (\<forall>a<counter T'. counter T \<le> a \<longrightarrow> length (P' a) \<le> length (P cur @ w))"
  using assms
proof (induction w arbitrary: T cur P)
  case Nil
  then have "T' = T" "n = cur" by auto
  then show ?case using Nil extends_refl by auto
next
  case (Cons c w)
  show ?case
  proof (cases "map_of (trans_of T cur) c")
    case None
    let ?T = "grow T cur c" and ?P = "P(counter T := P cur @ [c])"
    have sk: "skeleton ?P ?T" using skeleton_grow[OF Cons.prems(1,3) None] .
    have un: "unresolved ?T"
      using unresolved_grow[of T cur P c] Cons.prems(1,2,3) by (simp add: skeleton_def)
    have run: "add_chars ?T (counter T) w = (T', n)"
      using Cons.prems(4) None by (simp add: add_chars_Cons)
    have lt: "counter T < counter ?T" by simp
    obtain P' where P': "skeleton P' T'" "unresolved T'" "extends ?P ?T P' T'" "n < counter T'"
       "P' n = ?P (counter T) @ w" "follow T' (counter T) w = Some n"
       "\<forall>a<counter T'. counter ?T \<le> a \<longrightarrow> length (P' a) \<le> length (?P (counter T) @ w)"
      using Cons.IH[OF sk un lt run] by blast
    have ex: "extends P T P' T'"
      using extends_trans[OF extends_grow[OF Cons.prems(3)] P'(3)] .
    have "map_of (trans_of ?T cur) c = Some (counter T)"
      using Cons.prems(3) None by (simp add: state_at_grow map_of_snoc del: map_of_append)
    then have "map_of (trans_of T' cur) c = Some (counter T)"
      using P'(3) Cons.prems(3) unfolding extends_def by simp
    then have "follow T' cur (c # w) = Some n" using P'(6) by simp
    moreover have "P' n = P cur @ c # w" using P'(5) by simp
    moreover have "length (P' a) \<le> length (P cur @ c # w)"
      if a: "a < counter T'" "counter T \<le> a" for a
    proof (cases "a = counter T")
      case True
      then have "P' a = ?P (counter T)" using extendsD(4)[OF P'(3), of a] by simp
      then show ?thesis by simp
    next
      case False
      then have "counter ?T \<le> a" using a(2) by simp
      then show ?thesis using P'(7) a(1) by simp
    qed
    ultimately show ?thesis using P'(1,2,4) ex by blast
  next
    case (Some m)
    have m: "m < counter T" using skeleton_target(1)[OF Cons.prems(1,3) Some] .
    have pm: "P m = P cur @ [c]"
      using unresolved_child_path[OF Cons.prems(1,2,3) Some] .
    have run: "add_chars T m w = (T', n)"
      using Cons.prems(4) Some by (simp add: add_chars_Cons)
    obtain P' where P': "skeleton P' T'" "unresolved T'" "extends P T P' T'" "n < counter T'"
       "P' n = P m @ w" "follow T' m w = Some n"
       "\<forall>a<counter T'. counter T \<le> a \<longrightarrow> length (P' a) \<le> length (P m @ w)"
      using Cons.IH[OF Cons.prems(1,2) m run] by blast
    have "map_of (trans_of T' cur) c = Some m"
      using P'(3) Cons.prems(3) Some unfolding extends_def by simp
    then have "follow T' cur (c # w) = Some n" using P'(6) by simp
    moreover have "P' n = P cur @ c # w" using P'(5) pm by simp
    moreover have "\<forall>a<counter T'. counter T \<le> a \<longrightarrow> length (P' a) \<le> length (P cur @ c # w)"
      using P'(7) pm by simp
    ultimately show ?thesis using P'(1,2,3,4) by blast
  qed
qed

lemma add_chars_existing:
  "follow T cur w = Some n \<Longrightarrow> add_chars T cur w = (T, n)"
  by (induction w arbitrary: cur) (auto simp: add_chars_Cons split: option.splits)

lemma matching_snoc:
  "matching lower ci (ks @ [k]) w =
     matching lower ci ks w
       @ (if normal_form lower ci k \<noteq> [] \<and> normal_form lower ci k = w then [k] else [])"
  by (simp add: matching_def)

lemma skeleton_cong:
  assumes "skeleton P T" "counter T' = counter T" "zero_state T' = zero_state T"
    and "\<And>a. (heap T' a = None) = (heap T a = None)"
    and "\<And>a. identifier (state_at T' a) = identifier (state_at T a)"
    and "\<And>a. symbol_of T' a = symbol_of T a"
    and "\<And>a. parent_of T' a = parent_of T a"
    and "\<And>a. trans_of T' a = trans_of T a"
  shows "skeleton P T'"
  using assms(1) unfolding skeleton_def allocated_def rooted_def edges_ok_def
  by (simp add: assms(2-))

lemma unresolved_cong:
  assumes "unresolved T" "counter T' = counter T"
    and "\<And>a. lss_of T' a = lss_of T a"
    and "\<And>a. parent_of T' a = parent_of T a"
    and "\<And>a. trans_of T' a = trans_of T a"
  shows "unresolved T'"
  using assms(1) unfolding unresolved_def by (simp add: assms(2-))

lemma heap_allocated: "skeleton P T \<Longrightarrow> a < counter T \<Longrightarrow> heap T a \<noteq> None"
  by (simp add: skeleton_def allocated_def)

lemma add_result:
  assumes "\<not> finalized T" "normal_form lower (case_insensitive T) k \<noteq> []"
    "add_chars T (zero_state T) (normal_form lower (case_insensitive T) k) = (T1, n)"
  shows "add lower T k = (Inr (), update_state T1 n (\<lambda>s. s\<lparr>success := True, matched_keyword := Some k\<rparr>))"
  using assms by (simp add: add_def normal_form_def Let_def)

lemma add_empty:
  assumes "\<not> finalized T" "normal_form lower (case_insensitive T) k = []"
  shows "add lower T k = (Inr (), T)"
  using assms by (simp add: add_def normal_form_def Let_def)

lemma add_built:
  assumes inv: "built_inv lower ci ks P T"
  shows "\<exists>P'. built_inv lower ci (ks @ [k]) P' (snd (add lower T k)) \<and> fst (add lower T k) = Inr ()"
proof (cases "normal_form lower ci k = []")
  case True
  have nf: "\<not> finalized T" and ci: "case_insensitive T = ci"
    and te: "terminals lower ci ks P T"
    using inv by (simp_all add: built_inv_def)
  have "add lower T k = (Inr (), T)" using add_empty[OF nf] True ci by simp
  moreover have "terminals lower ci (ks @ [k]) P T"
  proof -
    have "\<exists>k'\<in>set (ks @ [k]). length (P a) \<le> length (normal_form lower ci k')"
      if "a < counter T" "a \<noteq> 0" for a
      using te that unfolding terminals_def by fastforce
    then show ?thesis
      using te True unfolding terminals_def by (simp add: matching_snoc)
  qed
  ultimately show ?thesis using inv unfolding built_inv_def by auto
next
  case False
  have nf: "\<not> finalized T" and ci: "case_insensitive T = ci"
    and sk: "skeleton P T" and un: "unresolved T" and te: "terminals lower ci ks P T"
    using inv by (simp_all add: built_inv_def)
  let ?w = "normal_form lower ci k"
  have w: "?w \<noteq> []" using False .
  obtain T1 n where run: "add_chars T (zero_state T) ?w = (T1, n)" by fastforce
  have z: "zero_state T = 0" "0 < counter T" "P 0 = []" using skeleton_root[OF sk] by auto
  obtain P1 where P1: "skeleton P1 T1" "unresolved T1" "extends P T P1 T1" "n < counter T1"
      "P1 n = ?w" "\<forall>a<counter T1. counter T \<le> a \<longrightarrow> length (P1 a) \<le> length ?w"
    using add_chars_props[OF sk un _ run[unfolded z(1)]] z by auto
  let ?T2 = "update_state T1 n (\<lambda>s. s\<lparr>success := True, matched_keyword := Some k\<rparr>)"
  have res: "add lower T k = (Inr (), ?T2)"
    using add_result[OF nf _ run[unfolded ci[symmetric]]] w ci by simp
  have al: "heap T1 n \<noteq> None" using heap_allocated[OF P1(1,4)] .
  have sk2: "skeleton P1 ?T2"
    by (rule skeleton_cong[OF P1(1)]) (use al in auto)
  have un2: "unresolved ?T2"
    by (rule unresolved_cong[OF P1(2)]) auto
  note ex = extendsD[OF P1(3)]
  have le: "counter T \<le> counter T1" using ex(1) .
  have present: "\<exists>a<counter ?T2. P1 a = normal_form lower ci k'" 
    if kin: "k' \<in> set (ks @ [k])" and kne: "normal_form lower ci k' \<noteq> []" for k'
  proof (cases "k' = k")
    case True
    then show ?thesis using P1(4,5) by auto
  next
    case False
    then have "k' \<in> set ks" using kin by simp
    then obtain a where "a < counter T" "P a = normal_form lower ci k'"
      using te kne unfolding terminals_def by blast
    then have "a < counter ?T2" "P1 a = normal_form lower ci k'" using ex(4)[of a] le by auto
    then show ?thesis by blast
  qed
  have bound: "\<exists>k'\<in>set (ks @ [k]). length (P1 a) \<le> length (normal_form lower ci k')"
    if a: "a < counter ?T2" "a \<noteq> 0" for a
  proof (cases "a < counter T")
    case True
    then obtain k' where "k' \<in> set ks" "length (P a) \<le> length (normal_form lower ci k')"
      using te a(2) unfolding terminals_def by blast
    then show ?thesis using ex(4)[of a] True by auto
  next
    case False
    then have "length (P1 a) \<le> length ?w" using P1(6) a(1) by simp
    then show ?thesis by auto
  qed
  have node: "success (state_at ?T2 a) = (matching lower ci (ks @ [k]) (P1 a) \<noteq> [])
       \<and> matched_keyword (state_at ?T2 a) =
           (if matching lower ci (ks @ [k]) (P1 a) = [] then None
            else Some (last (matching lower ci (ks @ [k]) (P1 a))))" if a: "a < counter ?T2" for a
  proof (cases "a = n")
    case True
    then show ?thesis using P1(5) False by (simp add: matching_snoc)
  next
    case ne: False
    have a1: "a < counter T1" using a by simp
    have "P1 a \<noteq> ?w" using path_inj[OF P1(1) a1 P1(4)] ne P1(5) by auto
    then have m: "matching lower ci (ks @ [k]) (P1 a) = matching lower ci ks (P1 a)"
      by (auto simp: matching_snoc)
    show ?thesis
    proof (cases "a < counter T")
      case True
      then have "P1 a = P a" "success (state_at T1 a) = success (state_at T a)"
        "matched_keyword (state_at T1 a) = matched_keyword (state_at T a)"
        using ex(4,5,6)[of a] by auto
      then show ?thesis using te True ne m unfolding terminals_def by simp
    next
      case new: False
      then have s: "\<not> success (state_at T1 a)" "matched_keyword (state_at T1 a) = None"
        using ex(8,9)[of a] a1 by auto
      have "matching lower ci ks (P1 a) = []"
      proof (rule ccontr)
        assume "matching lower ci ks (P1 a) \<noteq> []"
        then obtain k' where k': "k' \<in> set ks" "normal_form lower ci k' \<noteq> []"
          "normal_form lower ci k' = P1 a"
          unfolding matching_def by (auto simp: filter_empty_conv)
        then obtain b where b: "b < counter T" "P b = normal_form lower ci k'"
          using te unfolding terminals_def by blast
        then have "P1 b = P1 a" using ex(4)[of b] k'(3) by auto
        moreover have "b < counter T1" using b(1) le by simp
        ultimately have "b = a" using path_inj[OF P1(1) _ a1] by blast
        then show False using b(1) new by simp
      qed
      then show ?thesis using s ne m by simp
    qed
  qed
  have "terminals lower ci (ks @ [k]) P1 ?T2"
    unfolding terminals_def using present bound node by blast
  moreover have "\<not> finalized ?T2" "case_insensitive ?T2 = ci"
    using ex(2,3) nf ci by auto
  ultimately have "built_inv lower ci (ks @ [k]) P1 ?T2"
    using sk2 un2 unfolding built_inv_def by simp
  then show ?thesis using res by auto
qed

lemma init_built: "built_inv lower ci [] (\<lambda>_. []) (KeywordTree_init ci)"
  unfolding built_inv_def skeleton_def allocated_def rooted_def edges_ok_def unresolved_def
    terminals_def
  by (auto simp: KeywordTree_init_def State_init_def state_at_def matching_def)

lemma add_all_built:
  assumes "built_inv lower ci ks0 P T"
  shows "\<exists>P'. built_inv lower ci (ks0 @ ks) P' (snd (add_all lower T ks)) \<and> fst (add_all lower T ks) = Inr ()"
  using assms
proof (induction ks arbitrary: T ks0 P)
  case Nil
  then show ?case by auto
next
  case (Cons k ks)
  obtain P1 where P1: "built_inv lower ci (ks0 @ [k]) P1 (snd (add lower T k))" "fst (add lower T k) = Inr ()"
    using add_built[OF Cons.prems] by blast
  obtain T1 where T1: "add lower T k = (Inr (), T1)" using P1(2) by (cases "add lower T k") auto
  have "add_all lower T (k # ks) = add_all lower T1 ks" using T1 by simp
  moreover have "built_inv lower ci (ks0 @ [k]) P1 T1" using P1(1) T1 by simp
  ultimately show ?case using Cons.IH[of "ks0 @ [k]" P1 T1] by simp
qed

lemma built_invariant: "\<exists>P. built_inv lower ci ks P (built lower ci ks)"
  and add_all_init_ok: "fst (add_all lower (KeywordTree_init ci) ks) = Inr ()"
  using add_all_built[OF init_built, of lower ci ks] by (auto simp: built_def)

lemma add_all_append:
  "fst (add_all lower T ks) = Inr () \<Longrightarrow> add_all lower T (ks @ ks') = add_all lower (snd (add_all lower T ks)) ks'"
  by (induction ks arbitrary: T) (auto split: prod.splits sum.splits)

lemma built_snoc: "built lower ci (ks @ [k]) = snd (add lower (built lower ci ks) k)"
proof -
  have "fst (add lower (built lower ci ks) k) = Inr ()"
    using add_built built_invariant by blast
  then show ?thesis
    unfolding built_def using add_all_append[OF add_all_init_ok, of lower ci ks "[k]"]
    by (auto split: prod.splits sum.splits)
qed

lemma build_eq: "build depth lower ci ks = finalize depth (built lower ci ks)"
  using add_all_init_ok[of lower ci ks] unfolding build_def built_def
  by (auto split: prod.splits sum.splits)

text \<open>Adding a keyword whose normal form was just added only overwrites the stored text.\<close>

lemma add_add_same_normal_form:
  assumes inv: "built_inv lower ci ks P T" and eq: "normal_form lower ci k1 = normal_form lower ci k2"
  shows "snd (add lower (snd (add lower T k1)) k2) = snd (add lower T k2)"
proof (cases "normal_form lower ci k1 = []")
  case True
  have nf: "\<not> finalized T" and ci: "case_insensitive T = ci"
    using inv by (simp_all add: built_inv_def)
  have "add lower T k1 = (Inr (), T)" "add lower T k2 = (Inr (), T)"
    using add_empty[OF nf] True eq ci by simp_all
  then show ?thesis by simp
next
  case False
  have nf: "\<not> finalized T" and ci: "case_insensitive T = ci"
    and sk: "skeleton P T" and un: "unresolved T"
    using inv by (simp_all add: built_inv_def)
  let ?w = "normal_form lower ci k1"
  have w: "?w \<noteq> []" using False .
  obtain T1 n where run: "add_chars T (zero_state T) ?w = (T1, n)" by fastforce
  have z: "zero_state T = 0" "0 < counter T" using skeleton_root[OF sk] by auto
  obtain P1 where P1: "skeleton P1 T1" "extends P T P1 T1" "n < counter T1"
      "follow T1 0 ?w = Some n"
    using add_chars_props[OF sk un _ run[unfolded z(1)]] z by auto
  let ?f1 = "\<lambda>s. s\<lparr>success := True, matched_keyword := Some k1\<rparr>"
  let ?f2 = "\<lambda>s. s\<lparr>success := True, matched_keyword := Some k2\<rparr>"
  let ?T2 = "update_state T1 n ?f1"
  have r1: "add lower T k1 = (Inr (), ?T2)"
    using add_result[OF nf _ run[unfolded ci[symmetric]]] w ci by simp
  have r2: "add lower T k2 = (Inr (), update_state T1 n ?f2)"
    using add_result[OF nf, of lower k2 T1 n] run w ci eq by simp
  have same: "follow ?T2 a v = follow T1 a v" for a v
    by (induction v arbitrary: a) (auto split: option.splits)
  have "add_chars ?T2 0 ?w = (?T2, n)"
    using add_chars_existing[of ?T2 0 ?w n] same P1(4) by simp
  moreover have "\<not> finalized ?T2" "case_insensitive ?T2 = ci" "zero_state ?T2 = 0"
    using extendsD(2,3)[OF P1(2)] nf ci skeleton_root(1)[OF P1(1)] by auto
  ultimately have r3: "add lower ?T2 k2 = (Inr (), update_state ?T2 n ?f2)"
    using add_result[of ?T2 lower k2 ?T2 n] w eq by simp
  have "update_state ?T2 n ?f2 = update_state T1 n ?f2"
    by (simp add: update_state_def state_at_def)
  then show ?thesis using r1 r2 r3 by simp
qed

section \<open>Finalizing\<close>

lemma map_of_merge_list:
  "map_of (merge_list tr items) c =
     (case map_of tr c of Some y \<Rightarrow> Some y | None \<Rightarrow> map_of items c)"
proof (induction items arbitrary: tr)
  case Nil
  then show ?case by (simp split: option.splits)
next
  case (Cons it items)
  obtain d x where it: "it = (d, x)" by (cases it)
  show ?case unfolding it
    by (auto simp: Cons.IH map_of_snoc simp del: map_of_append split: option.splits)
qed

lemma distinct_merge_list:
  "distinct (map fst tr) \<Longrightarrow> distinct (map fst (merge_list tr items))"
proof (induction items arbitrary: tr)
  case Nil
  then show ?case by simp
next
  case (Cons it items)
  obtain d x where it: "it = (d, x)" by (cases it)
  show ?case unfolding it using Cons.prems
    by (auto intro!: Cons.IH simp: map_of_eq_None_iff)
qed

lemma set_merge_list: "set (merge_list tr items) \<subseteq> set tr \<union> set items"
proof (induction items arbitrary: tr)
  case Nil
  then show ?case by simp
next
  case (Cons it items)
  obtain d x where it: "it = (d, x)" by (cases it)
  show ?case unfolding it using Cons.IH[of "tr @ [(d, x)]"] Cons.IH[of tr] by auto
qed

lemma set_merge_list_mono: "set tr \<subseteq> set (merge_list tr items)"
proof (induction items arbitrary: tr)
  case Nil
  then show ?case by simp
next
  case (Cons it items)
  obtain d x where it: "it = (d, x)" by (cases it)
  show ?case unfolding it using Cons.IH[of "tr @ [(d, x)]"] Cons.IH[of tr] by auto
qed

lemma merge_transitions_fields [simp]:
  "counter (merge_transitions T s items) = counter T"
  "zero_state (merge_transitions T s items) = zero_state T"
  "finalized (merge_transitions T s items) = finalized T"
  "case_insensitive (merge_transitions T s items) = case_insensitive T"
  by (induction T s items rule: merge_transitions.induct) auto

lemma state_at_merge_transitions:
  "state_at (merge_transitions T s items) a =
     (if a = s then (state_at T s)\<lparr>transitions := merge_list (trans_of T s) items\<rparr>
      else state_at T a)"
  by (induction T s items rule: merge_transitions.induct) auto

lemma heap_merge_transitions:
  "heap T s \<noteq> None \<Longrightarrow> (heap (merge_transitions T s items) a = None) = (heap T a = None)"
  by (induction T s items rule: merge_transitions.induct) auto

lemma merge_transitions_noop:
  "(\<And>c x. (c, x) \<in> set items \<Longrightarrow> map_of (trans_of T s) c \<noteq> None)
   \<Longrightarrow> merge_transitions T s items = T"
proof (induction items)
  case Nil
  then show ?case by simp
next
  case (Cons it items)
  obtain d x where it: "it = (d, x)" by (cases it)
  obtain y where "map_of (trans_of T s) d = Some y" using Cons.prems[of d x] it by auto
  moreover have "merge_transitions T s items = T"
    by (rule Cons.IH) (use Cons.prems in auto)
  ultimately show ?case unfolding it by simp
qed

lemma fin_invD:
  assumes "fin_inv P D T"
  shows "skeleton P T" "0 \<in> D" "\<And>a. a \<in> D \<Longrightarrow> a < counter T" "lss_of T 0 = Some 0"
    "\<And>a c x. a < counter T \<Longrightarrow> a \<notin> D \<Longrightarrow> (c, x) \<in> set (trans_of T a) \<Longrightarrow> parent_of T x = Some a"
    "\<And>a c x. a \<in> D \<Longrightarrow> (c, x) \<in> set (trans_of T a) \<Longrightarrow> \<exists>q\<in>D. parent_of T x = Some q"
  using assms unfolding fin_inv_def own_only_def done_node_def by auto

lemma fin_inv_done: "fin_inv P D T \<Longrightarrow> a \<in> D \<Longrightarrow> done_node P D T a"
  by (simp add: fin_inv_def)

lemma done_nodeE:
  assumes "done_node P D T a" "a \<noteq> 0"
  obtains p f where "parent_of T a = Some p" "p \<in> D" "lss_of T a = Some f" "f \<in> D"
     "strict_suffix (P f) (P a)" "lss_walk T a (lss_of T p) = Some (Inr f)"
     "\<And>c x. f \<noteq> 0 \<Longrightarrow> map_of (trans_of T f) c = Some x \<Longrightarrow>
         \<exists>y. map_of (trans_of T a) c = Some y \<and> (y = x \<or> parent_of T y = Some a)"
proof -
  from assms have "\<exists>p f. parent_of T a = Some p \<and> p \<in> D \<and> lss_of T a = Some f \<and> f \<in> D
              \<and> strict_suffix (P f) (P a)
              \<and> lss_walk T a (lss_of T p) = Some (Inr f)
              \<and> (f \<noteq> 0 \<longrightarrow>
                   (\<forall>c x. map_of (trans_of T f) c = Some x \<longrightarrow>
                      (\<exists>y. map_of (trans_of T a) c = Some y
                           \<and> (y = x \<or> parent_of T y = Some a))))"
    by (simp add: done_node_def)
  then obtain p f where pf: "parent_of T a = Some p" "p \<in> D" "lss_of T a = Some f" "f \<in> D"
      "strict_suffix (P f) (P a)" "lss_walk T a (lss_of T p) = Some (Inr f)"
      "f \<noteq> 0 \<longrightarrow> (\<forall>c x. map_of (trans_of T f) c = Some x \<longrightarrow>
                      (\<exists>y. map_of (trans_of T a) c = Some y
                           \<and> (y = x \<or> parent_of T y = Some a)))"
    by blast
  show ?thesis by (rule that[OF pf(1-6)]) (use pf(7) in blast)
qed

lemma fin_inv_node:
  assumes "fin_inv P D T" "a \<in> D" "a \<noteq> 0"
  obtains p f where "parent_of T a = Some p" "p \<in> D" "lss_of T a = Some f" "f \<in> D"
     "strict_suffix (P f) (P a)" "lss_walk T a (lss_of T p) = Some (Inr f)"
     "\<And>c x. f \<noteq> 0 \<Longrightarrow> map_of (trans_of T f) c = Some x \<Longrightarrow>
         \<exists>y. map_of (trans_of T a) c = Some y \<and> (y = x \<or> parent_of T y = Some a)"
  using done_nodeE[OF fin_inv_done[OF assms(1,2)] assms(3)] by metis

text \<open>Every state of the done set has its link set, to a state of the done set that is
  the zero state or has a shorter path.\<close>

lemma fin_inv_lss:
  assumes "fin_inv P D T" "a \<in> D"
  obtains f where "lss_of T a = Some f" "f \<in> D" "a \<noteq> 0 \<Longrightarrow> strict_suffix (P f) (P a)"
     "suffix (P f) (P a)"
proof (cases "a = 0")
  case True
  then show ?thesis using that[of 0] fin_invD(2,4)[OF assms(1)] by auto
next
  case False
  then show ?thesis using fin_inv_node[OF assms False] that
    by (metis strict_suffix_def) 
qed

lemma strict_suffix_length: "strict_suffix xs ys \<Longrightarrow> length xs < length ys"
  by (rule suffix_length_less)

lemma lss_walk_Some:
  "lss_walk T s (Some t) =
     (case lookup (trans_of T t) (symbol_of T s) of
        Some target \<Rightarrow>
          if target \<noteq> s then Some (Inr target)
          else if t = zero_state T then Some (Inr (zero_state T))
          else lss_walk T s (lss_of T t)
      | None \<Rightarrow>
          if t = zero_state T then Some (Inr (zero_state T))
          else lss_walk T s (lss_of T t))"
  by (subst lss_walk.simps) simp

lemma lss_walk_total:
  assumes inv: "fin_inv P D T" and c: "symbol_of T s = Some c"
  shows "t \<in> D \<Longrightarrow> \<exists>f. lss_walk T s (Some t) = Some (Inr f) \<and>
            (f = 0 \<or> (f \<noteq> s \<and> (\<exists>t'\<in>D. suffix (P t') (P t) \<and> map_of (trans_of T t') c = Some f)))"
proof (induction "length (P t)" arbitrary: t rule: less_induct)
  case less
  have z: "zero_state T = 0" using skeleton_root(1)[OF fin_invD(1)[OF inv]] .
  let ?m = "map_of (trans_of T t) c"
  have look: "lookup (trans_of T u) (symbol_of T s) = map_of (trans_of T u) c" for u
    by (simp add: lookup_def c)
  show ?case
  proof (cases "\<exists>x. ?m = Some x \<and> x \<noteq> s")
    case True
    then obtain x where x: "?m = Some x" "x \<noteq> s" by blast
    have "lss_walk T s (Some t) = Some (Inr x)"
      by (subst lss_walk_Some) (simp add: look x)
    then show ?thesis using x less.prems by blast
  next
    case False
    show ?thesis
    proof (cases "t = 0")
      case True
      have "lss_walk T s (Some t) = Some (Inr 0)"
        using False True z by (subst lss_walk_Some) (auto simp: look split: option.splits)
      then show ?thesis by blast
    next
      case t0: False
      obtain f' where f': "lss_of T t = Some f'" "f' \<in> D" "strict_suffix (P f') (P t)"
        using fin_inv_lss[OF inv less.prems] t0 by metis
      have step: "lss_walk T s (Some t) = lss_walk T s (Some f')"
        using False t0 z f'(1) by (subst lss_walk_Some) (auto simp: look split: option.splits)
      have "length (P f') < length (P t)" using strict_suffix_length[OF f'(3)] .
      from less.hyps[OF this f'(2)] obtain f where
        f: "lss_walk T s (Some f') = Some (Inr f)"
           "f = 0 \<or> (f \<noteq> s \<and> (\<exists>t'\<in>D. suffix (P t') (P f') \<and> map_of (trans_of T t') c = Some f))"
        by blast
      have su: "suffix (P f') (P t)" using f'(3) by (simp add: strict_suffix_def)
      have "f = 0 \<or> (f \<noteq> s \<and> (\<exists>t'\<in>D. suffix (P t') (P t) \<and> map_of (trans_of T t') c = Some f))"
      proof (cases "f = 0")
        case True
        then show ?thesis by simp
      next
        case False
        then obtain t' where t': "f \<noteq> s" "t' \<in> D" "suffix (P t') (P f')"
            "map_of (trans_of T t') c = Some f"
          using f(2) by blast
        have "suffix (P t') (P t)" using t'(3) su by (rule suffix_order.trans)
        then show ?thesis using t' by blast
      qed
      then show ?thesis using step f(1) by simp
    qed
  qed
qed

lemma lss_walk_frame:
  assumes inv: "fin_inv P D T" and same: "\<And>a. a \<in> D \<Longrightarrow> state_at T' a = state_at T a"
    and sy: "symbol_of T' s = symbol_of T s" and ze: "zero_state T' = zero_state T"
  shows "t \<in> D \<Longrightarrow> lss_walk T' s (Some t) = lss_walk T s (Some t)"
proof (induction "length (P t)" arbitrary: t rule: less_induct)
  case less
  have z: "zero_state T = 0" using skeleton_root(1)[OF fin_invD(1)[OF inv]] .
  have st: "state_at T' t = state_at T t" using same less.prems by simp
  show ?case
  proof (cases "t = 0")
    case True
    show ?thesis
      unfolding lss_walk_Some[of T' s t] lss_walk_Some[of T s t]
      by (simp add: same[OF fin_invD(2)[OF inv]] sy ze z True split: option.splits)
  next
    case False
    obtain f' where f': "lss_of T t = Some f'" "f' \<in> D" "strict_suffix (P f') (P t)"
      using fin_inv_lss[OF inv less.prems] False by metis
    have "lss_walk T' s (Some f') = lss_walk T s (Some f')"
      using less.hyps[OF strict_suffix_length[OF f'(3)] f'(2)] .
    then show ?thesis
      unfolding lss_walk_Some[of T' s t] lss_walk_Some[of T s t]
      by (simp add: st sy ze z f'(1) split: option.splits)
  qed
qed

lemma same_staticD:
  assumes "same_static T T'"
  shows "counter T' = counter T" "zero_state T' = zero_state T"
    "case_insensitive T' = case_insensitive T" "(heap T' a = None) = (heap T a = None)"
    "identifier (state_at T' a) = identifier (state_at T a)"
    "symbol_of T' a = symbol_of T a" "parent_of T' a = parent_of T a"
    "success (state_at T' a) = success (state_at T a)"
    "matched_keyword (state_at T' a) = matched_keyword (state_at T a)"
  using assms unfolding same_static_def by auto

lemma same_static_refl: "same_static T T"
  by (simp add: same_static_def)

lemma same_static_trans: "same_static T T1 \<Longrightarrow> same_static T1 T2 \<Longrightarrow> same_static T T2"
  by (simp add: same_static_def)

lemma same_static_set_lss:
  "heap T s \<noteq> None \<Longrightarrow>
   same_static T (update_state T s (\<lambda>st. st\<lparr>longest_strict_suffix := Some f\<rparr>))"
  by (auto simp: same_static_def)

lemma same_static_merge:
  "heap T s \<noteq> None \<Longrightarrow> same_static T (merge_transitions T s items)"
  by (simp add: same_static_def state_at_merge_transitions heap_merge_transitions)

lemma update_state_id:
  "heap T a \<noteq> None \<Longrightarrow> f (state_at T a) = state_at T a \<Longrightarrow> update_state T a f = T"
  by (auto simp: update_state_def state_at_def fun_upd_idem)

text \<open>A state of the done set keeps its properties when the states of the done set stay
  as they are.\<close>

lemma done_node_frame:
  assumes inv: "fin_inv P D T" and a: "a \<in> D"
    and same: "\<And>b. b \<in> D \<Longrightarrow> state_at T' b = state_at T b"
    and st: "same_static T T'"
  shows "done_node P D T' a"
proof -
  have dn: "done_node P D T a" using fin_inv_done[OF inv a] .
  have par: "parent_of T' b = parent_of T b" for b using same_staticD(7)[OF st] .
  have k5: "\<exists>q\<in>D. parent_of T' x = Some q" if "(c, x) \<in> set (trans_of T' a)" for c x
    using that dn same[OF a] par unfolding done_node_def by simp
  have K: "\<exists>p f. parent_of T' a = Some p \<and> p \<in> D \<and> lss_of T' a = Some f \<and> f \<in> D
              \<and> strict_suffix (P f) (P a)
              \<and> lss_walk T' a (lss_of T' p) = Some (Inr f)
              \<and> (f \<noteq> 0 \<longrightarrow>
                   (\<forall>c x. map_of (trans_of T' f) c = Some x \<longrightarrow>
                      (\<exists>y. map_of (trans_of T' a) c = Some y
                           \<and> (y = x \<or> parent_of T' y = Some a))))" if a0: "a \<noteq> 0"
  proof -
    obtain p f where pf: "parent_of T a = Some p" "p \<in> D" "lss_of T a = Some f" "f \<in> D"
      "strict_suffix (P f) (P a)" "lss_walk T a (lss_of T p) = Some (Inr f)"
      "\<And>c x. f \<noteq> 0 \<Longrightarrow> map_of (trans_of T f) c = Some x \<Longrightarrow>
         \<exists>y. map_of (trans_of T a) c = Some y \<and> (y = x \<or> parent_of T y = Some a)"
      using done_nodeE[OF dn a0] by metis
    obtain t where t: "lss_of T p = Some t" "t \<in> D"
      using fin_inv_lss[OF inv pf(2)] by metis
    have "lss_walk T' a (Some t) = lss_walk T a (Some t)"
      by (rule lss_walk_frame[OF inv same same_staticD(6)[OF st] same_staticD(2)[OF st] t(2)])
    then have w: "lss_walk T' a (lss_of T' p) = Some (Inr f)"
      using pf(6) t(1) same[OF pf(2)] by simp
    have m: "\<exists>y. map_of (trans_of T' a) c = Some y \<and> (y = x \<or> parent_of T' y = Some a)"
      if "f \<noteq> 0" "map_of (trans_of T' f) c = Some x" for c x
      using pf(7)[of c x] that same[OF pf(4)] same[OF a] par by simp
    show ?thesis
      using pf(1-5) w m same[OF a] par by auto
  qed
  show ?thesis unfolding done_node_def using k5 K by blast
qed

lemma done_node_mono:
  assumes "done_node P D T a" "D \<subseteq> D'"
  shows "done_node P D' T a"
proof -
  have k5: "\<exists>q\<in>D'. parent_of T x = Some q" if "(c, x) \<in> set (trans_of T a)" for c x
    using that assms unfolding done_node_def by blast
  have K: "\<exists>p f. parent_of T a = Some p \<and> p \<in> D' \<and> lss_of T a = Some f \<and> f \<in> D'
              \<and> strict_suffix (P f) (P a)
              \<and> lss_walk T a (lss_of T p) = Some (Inr f)
              \<and> (f \<noteq> 0 \<longrightarrow>
                   (\<forall>c x. map_of (trans_of T f) c = Some x \<longrightarrow>
                      (\<exists>y. map_of (trans_of T a) c = Some y
                           \<and> (y = x \<or> parent_of T y = Some a))))" if a0: "a \<noteq> 0"
  proof -
    obtain p f where pf: "parent_of T a = Some p" "p \<in> D" "lss_of T a = Some f" "f \<in> D"
      "strict_suffix (P f) (P a)" "lss_walk T a (lss_of T p) = Some (Inr f)"
      "\<And>c x. f \<noteq> 0 \<Longrightarrow> map_of (trans_of T f) c = Some x \<Longrightarrow>
         \<exists>y. map_of (trans_of T a) c = Some y \<and> (y = x \<or> parent_of T y = Some a)"
      using done_nodeE[OF assms(1) a0] by metis
    have "p \<in> D'" "f \<in> D'" using pf(2,4) assms(2) by auto
    then show ?thesis using pf(1,3,5,6,7) by blast
  qed
  show ?thesis unfolding done_node_def using k5 K by blast
qed

text \<open>Assigning the link of a state that is not done keeps the invariant.\<close>

lemma fin_inv_set_lss:
  assumes inv: "fin_inv P D T" and s: "s < counter T" "s \<notin> D"
  shows "fin_inv P D (update_state T s (\<lambda>st. st\<lparr>longest_strict_suffix := Some f\<rparr>))"
proof -
  let ?T = "update_state T s (\<lambda>st. st\<lparr>longest_strict_suffix := Some f\<rparr>)"
  note sk = fin_invD(1)[OF inv]
  have al: "heap T s \<noteq> None" using heap_allocated[OF sk s(1)] .
  have st: "same_static T ?T" using same_static_set_lss[OF al] .
  have sk': "skeleton P ?T"
    by (rule skeleton_cong[OF sk]) (use al in auto)
  have same: "state_at ?T b = state_at T b" if "b \<in> D" for b using that s(2) by auto
  have "s \<noteq> 0" using fin_invD(2)[OF inv] s(2) by (cases "s = 0") simp_all
  then have l0: "lss_of ?T 0 = Some 0" using fin_invD(4)[OF inv] by simp
  have tr: "trans_of ?T b = trans_of T b" and pa: "parent_of ?T b = parent_of T b" for b
    by simp_all
  have own: "own_only ?T a" if "a < counter ?T" "a \<notin> D" for a
  proof -
    have "a < counter T" using that(1) by simp
    then show ?thesis
      using fin_invD(5)[OF inv _ that(2)] unfolding own_only_def tr pa by blast
  qed
  have dn: "done_node P D ?T a" if "a \<in> D" for a
    using done_node_frame[OF inv that same st] .
  show ?thesis
    unfolding fin_inv_def using sk' l0 own dn fin_invD(2,3)[OF inv] by simp
qed

lemma suffix_snoc_both: "suffix xs ys \<Longrightarrow> suffix (xs @ [c]) (ys @ [c])"
  by (auto simp: suffix_def)

text \<open>The end of \<open>search_lss\<close>: with the link assigned and its target done, merging the
  transitions of the target makes the state done.\<close>

lemma fin_inv_finish:
  assumes inv: "fin_inv P D T" and s: "s < counter T" "s \<notin> D" "s \<noteq> 0"
    and par: "parent_of T s = Some p" "p \<in> D"
    and lss: "lss_of T s = Some f" "f \<in> D"
    and ss: "strict_suffix (P f) (P s)"
    and walk: "lss_walk T s (lss_of T p) = Some (Inr f)"
    and T': "T' = (if f = 0 then T else merge_transitions T s (trans_of T f))"
  shows "fin_inv P (insert s D) T'"
proof -
  note sk = fin_invD(1)[OF inv]
  have al: "heap T s \<noteq> None" using heap_allocated[OF sk s(1)] .
  have fs: "f \<noteq> s" using lss(2) s(2) by auto
  have fc: "f < counter T" using fin_invD(3)[OF inv lss(2)] .
  define tr' where "tr' = (if f = 0 then trans_of T s else merge_list (trans_of T s) (trans_of T f))"
  have st_at: "state_at T' a = (if a = s then (state_at T s)\<lparr>transitions := tr'\<rparr> else state_at T a)"
    for a
    unfolding T' tr'_def by (simp add: state_at_merge_transitions)
  have st: "same_static T T'"
    unfolding T' using same_static_merge[OF al] same_static_refl by simp
  have own_s: "parent_of T x = Some s" if "(c, x) \<in> set (trans_of T s)" for c x
    using fin_invD(5)[OF inv s(1,2) that] .
  have tr'_set: "set tr' \<subseteq> set (trans_of T s) \<union> set (trans_of T f)"
    unfolding tr'_def using set_merge_list by auto
  have tr'_old: "map_of tr' c = Some y" if "map_of (trans_of T s) c = Some y" for c y
    unfolding tr'_def using that by (simp add: map_of_merge_list)
  have tr'_new: "map_of tr' c = map_of (trans_of T f) c"
    if "f \<noteq> 0" "map_of (trans_of T s) c = None" for c
    unfolding tr'_def using that by (simp add: map_of_merge_list)
  have dist_s: "distinct (map fst (trans_of T s))"
    using sk s(1) unfolding skeleton_def edges_ok_def by blast
  have tr'_dist: "distinct (map fst tr')"
    unfolding tr'_def using distinct_merge_list[OF dist_s] dist_s by simp
  have edge: "x < counter T \<and> x \<noteq> 0 \<and> symbol_of T x = Some c \<and> suffix (P x) (P a @ [c])"
    if "a < counter T" "(c, x) \<in> set (trans_of T a)" for a c x
    using sk that unfolding skeleton_def edges_ok_def by blast
  have sfx: "suffix (P f) (P s)" using ss by (simp add: strict_suffix_def)
  have tr'_edge: "x < counter T \<and> x \<noteq> 0 \<and> symbol_of T x = Some c \<and> suffix (P x) (P s @ [c])"
    if "(c, x) \<in> set tr'" for c x
  proof (cases "(c, x) \<in> set (trans_of T s)")
    case True
    then show ?thesis using edge[OF s(1)] by blast
  next
    case False
    then have "(c, x) \<in> set (trans_of T f)" using that tr'_set by auto
    then have e: "x < counter T \<and> x \<noteq> 0 \<and> symbol_of T x = Some c \<and> suffix (P x) (P f @ [c])"
      using edge[OF fc] by blast
    have "suffix (P f @ [c]) (P s @ [c])" using sfx by (rule suffix_snoc_both)
    then show ?thesis using e suffix_order.trans by blast
  qed
  have sk': "skeleton P T'"
  proof -
    have al': "allocated T'"
      using sk st unfolding skeleton_def allocated_def
      by (simp add: same_staticD[OF st])
    have ro: "rooted P T'"
    proof -
      have "\<exists>p c. p < counter T' \<and> parent_of T' a = Some p \<and> symbol_of T' a = Some c
             \<and> P a = P p @ [c] \<and> map_of (trans_of T' p) c = Some a"
        if a: "a < counter T'" "a \<noteq> 0" for a
      proof -
        have "a < counter T" using a(1) same_staticD(1)[OF st] by simp
        then obtain q c where q: "q < counter T" "parent_of T a = Some q" "symbol_of T a = Some c"
            "P a = P q @ [c]" "map_of (trans_of T q) c = Some a"
          using skeleton_parent[OF sk _ a(2)] by metis
        have "map_of (trans_of T' q) c = Some a"
          using q(5) tr'_old by (auto simp: st_at)
        then show ?thesis using q same_staticD[OF st] by auto
      qed
      then show ?thesis
        using skeleton_root[OF sk] unfolding rooted_def by (simp add: same_staticD[OF st])
    qed
    have ed: "edges_ok P T'"
    proof -
      have "distinct (map fst (trans_of T' a)) \<and>
         (\<forall>c x. (c, x) \<in> set (trans_of T' a) \<longrightarrow> x < counter T' \<and> x \<noteq> 0
             \<and> symbol_of T' x = Some c \<and> suffix (P x) (P a @ [c]))" if a: "a < counter T'" for a
      proof (cases "a = s")
        case True
        then show ?thesis using tr'_dist tr'_edge
          by (simp add: st_at same_staticD(1,6)[OF st])
      next
        case False
        have ac: "a < counter T" using a same_staticD(1)[OF st] by simp
        have "distinct (map fst (trans_of T a))"
          using sk ac unfolding skeleton_def edges_ok_def by blast
        then show ?thesis using False edge[OF ac]
          by (simp add: st_at same_staticD(1,6)[OF st])
      qed
      then show ?thesis unfolding edges_ok_def by blast
    qed
    show ?thesis unfolding skeleton_def using al' ro ed by simp
  qed
  have same: "state_at T' b = state_at T b" if "b \<in> D" for b
    using that s(2) by (auto simp: st_at)
  have l0: "lss_of T' 0 = Some 0" using fin_invD(4)[OF inv] s(3) by (simp add: st_at)
  have own: "own_only T' a" if "a < counter T'" "a \<notin> insert s D" for a
  proof -
    have a: "a < counter T" "a \<notin> D" "a \<noteq> s" using that same_staticD(1)[OF st] by auto
    have "trans_of T' a = trans_of T a" using a(3) by (simp add: st_at)
    then show ?thesis
      using fin_invD(5)[OF inv a(1,2)] unfolding own_only_def same_staticD(7)[OF st] by simp
  qed
  have dn_old: "done_node P (insert s D) T' a" if "a \<in> D" for a
    by (rule done_node_mono[OF done_node_frame[OF inv that same st]]) auto
  have dn_s: "done_node P (insert s D) T' s"
  proof -
    have k5: "\<exists>q\<in>insert s D. parent_of T' x = Some q" if "(c, x) \<in> set (trans_of T' s)" for c x
    proof -
      have "(c, x) \<in> set tr'" using that by (simp add: st_at)
      then consider "(c, x) \<in> set (trans_of T s)" | "(c, x) \<in> set (trans_of T f)"
        using tr'_set by auto
      then show ?thesis
      proof cases
        case 1
        then show ?thesis using own_s same_staticD(7)[OF st] by auto
      next
        case 2
        then show ?thesis using fin_invD(6)[OF inv lss(2)] same_staticD(7)[OF st] by auto
      qed
    qed
    obtain t where t: "lss_of T p = Some t" "t \<in> D"
      using fin_inv_lss[OF inv par(2)] by metis
    have "lss_walk T' s (Some t) = lss_walk T s (Some t)"
      by (rule lss_walk_frame[OF inv same same_staticD(6)[OF st] same_staticD(2)[OF st] t(2)])
    then have w: "lss_walk T' s (lss_of T' p) = Some (Inr f)"
      using walk t(1) same[OF par(2)] by simp
    have m: "\<exists>y. map_of (trans_of T' s) c = Some y \<and> (y = x \<or> parent_of T' y = Some s)"
      if f0: "f \<noteq> 0" and mf: "map_of (trans_of T' f) c = Some x" for c x
    proof (cases "map_of (trans_of T s) c")
      case None
      then show ?thesis using tr'_new[OF f0 None] mf fs by (simp add: st_at)
    next
      case (Some y)
      then have "(c, y) \<in> set (trans_of T s)" by (rule map_of_SomeD)
      then have "parent_of T' y = Some s" using own_s same_staticD(7)[OF st] by simp
      then show ?thesis using tr'_old[OF Some] by (simp add: st_at)
    qed
    have "parent_of T' s = Some p" "lss_of T' s = Some f"
      using par(1) lss(1) by (simp_all add: st_at)
    then have "\<exists>p f. parent_of T' s = Some p \<and> p \<in> insert s D \<and> lss_of T' s = Some f
              \<and> f \<in> insert s D \<and> strict_suffix (P f) (P s)
              \<and> lss_walk T' s (lss_of T' p) = Some (Inr f)
              \<and> (f \<noteq> 0 \<longrightarrow>
                   (\<forall>c x. map_of (trans_of T' f) c = Some x \<longrightarrow>
                      (\<exists>y. map_of (trans_of T' s) c = Some y
                           \<and> (y = x \<or> parent_of T' y = Some s))))"
      using par(2) lss(2) ss w m by blast
    then show ?thesis unfolding done_node_def using k5 by blast
  qed
  have "\<forall>a\<in>insert s D. a < counter T'"
    using fin_invD(3)[OF inv] s(1) same_staticD(1)[OF st] by auto
  then show ?thesis
    unfolding fin_inv_def using sk' l0 own dn_old dn_s fin_invD(2)[OF inv] by auto
qed

lemma walk_result:
  assumes inv: "fin_inv P D T" and s: "s < counter T" "s \<noteq> 0"
    and par: "parent_of T s = Some p" "p \<in> D"
  obtains f where "lss_walk T s (lss_of T p) = Some (Inr f)" "f < counter T"
    "strict_suffix (P f) (P s)" "f \<noteq> 0 \<Longrightarrow> \<exists>q\<in>D. parent_of T f = Some q"
proof -
  note sk = fin_invD(1)[OF inv]
  obtain p' c where pc: "parent_of T s = Some p'" "symbol_of T s = Some c" "P s = P p' @ [c]"
    using skeleton_parent[OF sk s] by metis
  have pp: "p' = p" using pc(1) par(1) by simp
  obtain t where t: "lss_of T p = Some t" "t \<in> D" "suffix (P t) (P p)"
    using fin_inv_lss[OF inv par(2)] by metis
  obtain f where f: "lss_walk T s (Some t) = Some (Inr f)"
     "f = 0 \<or> (f \<noteq> s \<and> (\<exists>t'\<in>D. suffix (P t') (P t) \<and> map_of (trans_of T t') c = Some f))"
    using lss_walk_total[OF inv pc(2) t(2)] by blast
  have w: "lss_walk T s (lss_of T p) = Some (Inr f)" using f(1) t(1) by simp
  show ?thesis
  proof (cases "f = 0")
    case True
    have "P s \<noteq> []" using pc(3) by simp
    then have "strict_suffix (P f) (P s)"
      using True skeleton_root(3)[OF sk] by (simp add: strict_suffix_def)
    then show ?thesis using that[OF w] True skeleton_root(2)[OF sk] by simp
  next
    case False
    then obtain t' where t': "f \<noteq> s" "t' \<in> D" "suffix (P t') (P t)"
       "map_of (trans_of T t') c = Some f"
      using f(2) by blast
    have t'c: "t' < counter T" using fin_invD(3)[OF inv t'(2)] .
    have fc: "f < counter T" and fsfx: "suffix (P f) (P t' @ [c])"
      using skeleton_target[OF sk t'c t'(4)] by auto
    have "suffix (P t') (P p)" using t'(3) t(3) by (rule suffix_order.trans)
    then have "suffix (P t' @ [c]) (P s)" unfolding pc(3) pp by (rule suffix_snoc_both)
    then have sfx: "suffix (P f) (P s)" using fsfx suffix_order.trans by blast
    have "P f \<noteq> P s" using path_inj[OF sk fc s(1)] t'(1) by blast
    then have ss: "strict_suffix (P f) (P s)" using sfx by (simp add: strict_suffix_def)
    have "(c, f) \<in> set (trans_of T t')" using t'(4) by (rule map_of_SomeD)
    then have "\<exists>q\<in>D. parent_of T f = Some q" using fin_invD(6)[OF inv t'(2)] by blast
    then show ?thesis using that[OF w fc ss] by simp
  qed
qed

lemma search_lss_unfold:
  assumes "parent_of T s = Some p" "lss_walk T s (lss_of T p) = Some (Inr f)"
    "zero_state T = 0"
  shows "search_lss (Suc depth) T s =
     (if f = 0 then Some (Inr (), update_state T s (\<lambda>st. st\<lparr>longest_strict_suffix := Some f\<rparr>))
      else Option.bind
         (if lss_of (update_state T s (\<lambda>st. st\<lparr>longest_strict_suffix := Some f\<rparr>)) f = None
          then search_lss depth (update_state T s (\<lambda>st. st\<lparr>longest_strict_suffix := Some f\<rparr>)) f
          else Some (Inr (), update_state T s (\<lambda>st. st\<lparr>longest_strict_suffix := Some f\<rparr>)))
         (\<lambda>(r2, T2). case r2 of
              Inl e \<Rightarrow> Some (Inl e, T2)
            | Inr _ \<Rightarrow> Some (Inr (), merge_transitions T2 s (trans_of T2 f))))"
  by (simp add: assms Let_def)

declare search_lss.simps(2) [simp del]

lemma search_lss_correct:
  assumes "fin_inv P D T" "s < counter T" "s \<noteq> 0" "parent_of T s = Some p" "p \<in> D"
    and "\<And>a. a < counter T \<Longrightarrow> a \<notin> D \<Longrightarrow> lss_of T a \<noteq> None \<Longrightarrow> length (P s) < length (P a)"
  shows "(\<exists>T'. search_lss depth T s = Some (Inl RecursionError, T') \<and> depth < length (P s))
       \<or> (\<exists>T' D'. search_lss depth T s = Some (Inr (), T') \<and> lss_post P D T s D' T')"
  using assms
proof (induction depth arbitrary: s T D p)
  case 0
  have "P s \<noteq> []" using path_nonempty[OF fin_invD(1)[OF 0(1)] 0(2,3)] .
  then show ?case by simp
next
  case (Suc depth)
  note inv = Suc.prems(1) and s = Suc.prems(2,3) and par = Suc.prems(4,5)
    and prog = Suc.prems(6)
  note sk = fin_invD(1)[OF inv]
  have z: "zero_state T = 0" using skeleton_root(1)[OF sk] .
  have al: "heap T s \<noteq> None" using heap_allocated[OF sk s(1)] .
  obtain f where f: "lss_walk T s (lss_of T p) = Some (Inr f)" "f < counter T"
    "strict_suffix (P f) (P s)" "f \<noteq> 0 \<Longrightarrow> \<exists>q\<in>D. parent_of T f = Some q"
    using walk_result[OF inv s par] by metis
  have fs: "f \<noteq> s" using f(3) by (auto simp: strict_suffix_def)
  have flen: "length (P f) < length (P s)" using strict_suffix_length[OF f(3)] .
  let ?T1 = "update_state T s (\<lambda>st. st\<lparr>longest_strict_suffix := Some f\<rparr>)"
  note unf = search_lss_unfold[OF par(1) f(1) z]
  show ?case
  proof (cases "s \<in> D")
    case True
    obtain p' f' where pf: "parent_of T s = Some p'" "lss_of T s = Some f'" "f' \<in> D"
      "lss_walk T s (lss_of T p') = Some (Inr f')"
      "\<And>c x. f' \<noteq> 0 \<Longrightarrow> map_of (trans_of T f') c = Some x \<Longrightarrow>
         \<exists>y. map_of (trans_of T s) c = Some y \<and> (y = x \<or> parent_of T y = Some s)"
      using fin_inv_node[OF inv True s(2)] by metis
    have "p' = p" using pf(1) par(1) by simp
    then have ff: "f' = f" using pf(4) f(1) by simp
    have T1: "?T1 = T" by (rule update_state_id[OF al]) (simp add: pf(2) ff)
    have run: "search_lss (Suc depth) T s = Some (Inr (), T)"
    proof (cases "f = 0")
      case True
      then show ?thesis using unf T1 by simp
    next
      case False
      obtain g where "lss_of T f = Some g" using fin_inv_lss[OF inv pf(3)] ff by metis
      moreover have "merge_transitions T s (trans_of T f) = T"
      proof (rule merge_transitions_noop)
        fix c x assume "(c, x) \<in> set (trans_of T f)"
        then obtain x' where "map_of (trans_of T f) c = Some x'"
          by (metis weak_map_of_SomeI)
        then show "map_of (trans_of T s) c \<noteq> None" using pf(5)[of c x'] False ff by auto
      qed
      ultimately show ?thesis using unf T1 False by simp
    qed
    have "lss_post P D T s D T"
      unfolding lss_post_def using inv True same_static_refl by simp
    then show ?thesis using run by blast
  next
    case sD: False
    have inv1: "fin_inv P D ?T1" using fin_inv_set_lss[OF inv s(1) sD] .
    have st1: "same_static T ?T1" using same_static_set_lss[OF al] .
    have at1: "state_at ?T1 a = state_at T a" if "a \<noteq> s" for a using that by simp
    have ps: "p \<noteq> s" using par(2) sD by auto
    obtain t where t: "lss_of T p = Some t" "t \<in> D"
      using fin_inv_lss[OF inv par(2)] by metis
    have same1: "state_at ?T1 b = state_at T b" if "b \<in> D" for b using that sD by auto
    have finish: "\<exists>T' D'. lss_post P D T s D' T' \<and>
        T' = (if f = 0 then T2 else merge_transitions T2 s (trans_of T2 f))"
      if inv2: "fin_inv P D2 T2" and D2: "D \<subseteq> D2" "f \<in> D2" "s \<notin> D2"
        and sameD: "\<And>a. a \<in> D \<Longrightarrow> state_at T2 a = state_at ?T1 a"
        and sames: "state_at T2 s = state_at ?T1 s"
        and out: "\<And>a. a \<notin> D2 \<Longrightarrow> state_at T2 a = state_at ?T1 a"
        and len: "\<And>a. a \<in> D2 \<Longrightarrow> a \<notin> D \<Longrightarrow> length (P a) \<le> length (P f)"
        and st2: "same_static ?T1 T2"
      for T2 D2
    proof -
      define T' where "T' = (if f = 0 then T2 else merge_transitions T2 s (trans_of T2 f))"
      have c2: "counter T2 = counter T" using same_staticD(1)[OF st2] by simp
      have al2: "heap T2 s \<noteq> None" using same_staticD(4)[OF st2, of s] al by simp
      have sameT: "state_at T2 b = state_at T b" if "b \<in> D" for b
        using sameD[OF that] same1[OF that] by simp
      have stT: "same_static T T2" using same_static_trans[OF st1 st2] .
      have "lss_walk T2 s (Some t) = lss_walk T s (Some t)"
        by (rule lss_walk_frame[OF inv sameT same_staticD(6)[OF stT] same_staticD(2)[OF stT] t(2)])
      then have w2: "lss_walk T2 s (lss_of T2 p) = Some (Inr f)"
        using f(1) t(1) sameT[OF par(2)] by simp
      have inv': "fin_inv P (insert s D2) T'"
        by (rule fin_inv_finish[OF inv2 _ D2(3) s(2) _ _ _ D2(2) f(3) w2 T'_def])
           (use s(1) c2 par D2(1) sames in auto)
      have at': "state_at T' a = state_at T2 a" if "a \<noteq> s" for a
        using that unfolding T'_def by (simp add: state_at_merge_transitions)
      have st': "same_static T T'"
        unfolding T'_def using same_static_trans[OF stT same_static_merge[OF al2]] stT by simp
      have d: "state_at T' a = state_at T a" if "a \<in> D" for a
        using that sD at'[of a] sameT[OF that] by auto
      have e: "state_at T' a = state_at T a" if "a \<notin> insert s D2" for a
        using that at'[of a] out[of a] at1[of a] by auto
      have g: "length (P a) \<le> length (P s)" if "a \<in> insert s D2" "a \<notin> D" for a
        using that len[of a] flen by (cases "a = s") auto
      have "lss_post P D T s (insert s D2) T'"
        unfolding lss_post_def using inv' D2(1) d e g st' by auto
      then show ?thesis using T'_def by blast
    qed
    show ?thesis
    proof (cases "f = 0")
      case True
      have "0 \<in> D" using fin_invD(2)[OF inv] .
      then obtain T' D' where "lss_post P D T s D' T'" "T' = ?T1"
        using finish[OF inv1 subset_refl _ sD _ refl _ _ same_static_refl] True by auto
      then show ?thesis using unf True by auto
    next
      case f0: False
      obtain q where q: "q \<in> D" "parent_of T f = Some q" using f(4)[OF f0] by blast
      have tail: ?thesis
        if step: "(if lss_of ?T1 f = None then search_lss depth ?T1 f else Some (Inr (), ?T1))
                = Some (Inr (), T2)"
          and post2: "lss_post P D ?T1 f D2 T2" for T2 D2
      proof -
        have p2: "fin_inv P D2 T2" "D \<subseteq> D2" "f \<in> D2"
          "\<And>a. a \<in> D \<Longrightarrow> state_at T2 a = state_at ?T1 a"
          "\<And>a. a \<notin> D2 \<Longrightarrow> state_at T2 a = state_at ?T1 a"
          "\<And>a. a \<in> D2 \<Longrightarrow> a \<notin> D \<Longrightarrow> length (P a) \<le> length (P f)"
          "same_static ?T1 T2"
          using post2 unfolding lss_post_def by auto
        have sD2: "s \<notin> D2"
        proof
          assume "s \<in> D2"
          then have "length (P s) \<le> length (P f)" using p2(6) sD by simp
          then show False using flen by simp
        qed
        obtain T' D' where fin: "lss_post P D T s D' T'"
           "T' = merge_transitions T2 s (trans_of T2 f)"
          using finish[OF p2(1,2,3) sD2 p2(4) p2(5)[OF sD2] p2(5,6,7)] f0 by auto
        have "search_lss (Suc depth) T s = Some (Inr (), T')"
          using unf f0 step fin(2) by simp
        then show ?thesis using fin(1) by blast
      qed
      show ?thesis
      proof (cases "lss_of ?T1 f = None")
        case True
        have "(\<exists>T'. search_lss depth ?T1 f = Some (Inl RecursionError, T')
                  \<and> depth < length (P f))
            \<or> (\<exists>T' D'. search_lss depth ?T1 f = Some (Inr (), T') \<and> lss_post P D ?T1 f D' T')"
        proof (rule Suc.IH[OF inv1 _ f0 _ q(1)])
          show "f < counter ?T1" using f(2) by simp
          show "parent_of ?T1 f = Some q" using q(2) fs by simp
          fix a assume a: "a < counter ?T1" "a \<notin> D" "lss_of ?T1 a \<noteq> None"
          show "length (P f) < length (P a)"
          proof (cases "a = s")
            case True
            then show ?thesis using flen by simp
          next
            case False
            then have "length (P s) < length (P a)" using prog[of a] a by simp
            then show ?thesis using flen by simp
          qed
        qed
        then show ?thesis
        proof (elim disjE exE conjE)
          fix T2
          assume e: "search_lss depth ?T1 f = Some (Inl RecursionError, T2)"
            "depth < length (P f)"
          have "search_lss (Suc depth) T s = Some (Inl RecursionError, T2)"
            using unf f0 True e(1) by simp
          moreover have "Suc depth < length (P s)" using e(2) flen by simp
          ultimately show ?thesis by blast
        next
          fix T2 D2
          assume r: "search_lss depth ?T1 f = Some (Inr (), T2)"
            and p: "lss_post P D ?T1 f D2 T2"
          have "(if lss_of ?T1 f = None then search_lss depth ?T1 f else Some (Inr (), ?T1))
                = Some (Inr (), T2)"
            using True r by (simp only: if_True refl)
          then show ?thesis using p by (rule tail)
        qed
      next
        case False
        then have l: "lss_of T f \<noteq> None" using fs by simp
        have "f \<in> D"
        proof (rule ccontr)
          assume "f \<notin> D"
          then have "length (P s) < length (P f)" using prog[OF f(2) _ l] by simp
          then show False using flen by simp
        qed
        then have p: "lss_post P D ?T1 f D ?T1"
          unfolding lss_post_def using inv1 same_static_refl by simp
        have "(if lss_of ?T1 f = None then search_lss depth ?T1 f else Some (Inr (), ?T1))
                = Some (Inr (), ?T1)"
          using False by (simp only: if_False refl)
        then show ?thesis using p by (rule tail)
      qed
    qed
  qed
qed

lemma ident_at: "skeleton P T \<Longrightarrow> a < counter T \<Longrightarrow> identifier (state_at T a) = a"
  by (simp add: skeleton_def allocated_def)

lemma process_children_correct:
  assumes "fin_inv P D T" "quiet D T" "state \<in> D" "n = length (trans_of T state)"
    "\<And>x. x \<in> set children \<Longrightarrow> \<exists>c. (c, x) \<in> set (trans_of T state)"
  shows "(\<exists>T'. process_children depth T state n processed children to_process
                = Some (Inl RecursionError, T')
              \<and> (\<exists>x\<in>set children. depth < length (P x)))
       \<or> (\<exists>T' D'. process_children depth T state n processed children to_process
            = Some (Inr (to_process @ filter (\<lambda>x. x \<notin> processed) children), T')
          \<and> fin_inv P D' T' \<and> quiet D' T' \<and> D \<subseteq> D'
          \<and> set (filter (\<lambda>x. x \<notin> processed) children) \<subseteq> D'
          \<and> (\<forall>a\<in>D. state_at T' a = state_at T a) \<and> same_static T T')"
  using assms
proof (induction children arbitrary: T D to_process)
  case Nil
  then show ?case using same_static_refl by auto
next
  case (Cons x children)
  note inv = Cons.prems(1) and qu = Cons.prems(2) and st = Cons.prems(3) and n = Cons.prems(4)
  note sk = fin_invD(1)[OF inv]
  obtain c where cx: "(c, x) \<in> set (trans_of T state)" using Cons.prems(5)[of x] by auto
  have stc: "state < counter T" using fin_invD(3)[OF inv st] .
  have xc: "x < counter T" "x \<noteq> 0"
    using sk stc cx unfolding skeleton_def edges_ok_def by blast+
  have idx: "identifier (state_at T x) = x" using ident_at[OF sk xc(1)] .
  show ?case
  proof (cases "x \<in> processed")
    case True
    have "(\<exists>T'. process_children depth T state n processed children to_process
                = Some (Inl RecursionError, T')
              \<and> (\<exists>x\<in>set children. depth < length (P x)))
       \<or> (\<exists>T' D'. process_children depth T state n processed children to_process
            = Some (Inr (to_process @ filter (\<lambda>x. x \<notin> processed) children), T')
          \<and> fin_inv P D' T' \<and> quiet D' T' \<and> D \<subseteq> D'
          \<and> set (filter (\<lambda>x. x \<notin> processed) children) \<subseteq> D'
          \<and> (\<forall>a\<in>D. state_at T' a = state_at T a) \<and> same_static T T')"
      by (rule Cons.IH[OF inv qu st n]) (use Cons.prems(5) in auto)
    then show ?thesis using True n idx by auto
  next
    case False
    obtain q where q: "q \<in> D" "parent_of T x = Some q"
      using fin_invD(6)[OF inv st cx] by blast
    have "(\<exists>T'. search_lss depth T x = Some (Inl RecursionError, T') \<and> depth < length (P x))
        \<or> (\<exists>T' D'. search_lss depth T x = Some (Inr (), T') \<and> lss_post P D T x D' T')"
      by (rule search_lss_correct[OF inv xc q(2,1)]) (use qu in \<open>auto simp: quiet_def\<close>)
    then show ?thesis
    proof (elim disjE exE conjE)
      fix T1
      assume e: "search_lss depth T x = Some (Inl RecursionError, T1)" "depth < length (P x)"
      have "process_children depth T state n processed (x # children) to_process
              = Some (Inl RecursionError, T1)"
        using False n idx e(1) by simp
      then show ?thesis using e(2) by auto
    next
      fix T1 D1
      assume run: "search_lss depth T x = Some (Inr (), T1)"
        and post: "lss_post P D T x D1 T1"
      have p1: "fin_inv P D1 T1" "D \<subseteq> D1" "x \<in> D1"
        "\<And>a. a \<in> D \<Longrightarrow> state_at T1 a = state_at T a"
        "\<And>a. a \<notin> D1 \<Longrightarrow> state_at T1 a = state_at T a"
        "same_static T T1"
        using post unfolding lss_post_def by auto
      have c1: "counter T1 = counter T" using same_staticD(1)[OF p1(6)] .
      have qu1: "quiet D1 T1"
        unfolding quiet_def using qu p1(2,5) c1 by (auto simp: quiet_def)
      have st1: "state \<in> D1" using st p1(2) by auto
      have tr1: "trans_of T1 state = trans_of T state" using p1(4)[OF st] by simp
      have unf: "process_children depth T state n processed (x # children) to_process
              = process_children depth T1 state n processed children (to_process @ [x])"
        using False n idx run by simp
      have "(\<exists>T'. process_children depth T1 state n processed children (to_process @ [x])
                = Some (Inl RecursionError, T')
              \<and> (\<exists>x\<in>set children. depth < length (P x)))
       \<or> (\<exists>T' D'. process_children depth T1 state n processed children (to_process @ [x])
            = Some (Inr ((to_process @ [x]) @ filter (\<lambda>x. x \<notin> processed) children), T')
          \<and> fin_inv P D' T' \<and> quiet D' T' \<and> D1 \<subseteq> D'
          \<and> set (filter (\<lambda>x. x \<notin> processed) children) \<subseteq> D'
          \<and> (\<forall>a\<in>D1. state_at T' a = state_at T1 a) \<and> same_static T1 T')"
        by (rule Cons.IH[OF p1(1) qu1 st1]) (use n tr1 Cons.prems(5) in auto)
      then show ?thesis
      proof (elim disjE exE conjE)
        fix T'
        assume "process_children depth T1 state n processed children (to_process @ [x])
                = Some (Inl RecursionError, T')" "\<exists>x\<in>set children. depth < length (P x)"
        then show ?thesis unfolding unf by auto
      next
        fix T' D'
        assume r: "process_children depth T1 state n processed children (to_process @ [x])
            = Some (Inr ((to_process @ [x]) @ filter (\<lambda>x. x \<notin> processed) children), T')"
          "fin_inv P D' T'" "quiet D' T'" "D1 \<subseteq> D'"
          "set (filter (\<lambda>x. x \<notin> processed) children) \<subseteq> D'"
          "\<forall>a\<in>D1. state_at T' a = state_at T1 a" "same_static T1 T'"
        have "process_children depth T state n processed (x # children) to_process
            = Some (Inr (to_process @ filter (\<lambda>x. x \<notin> processed) (x # children)), T')"
          unfolding unf using False r(1) by simp
        moreover have "set (filter (\<lambda>x. x \<notin> processed) (x # children)) \<subseteq> D'"
          using False r(4,5) p1(3) by auto
        moreover have "\<forall>a\<in>D. state_at T' a = state_at T a"
          using r(6) p1(2,4) by auto
        moreover have "same_static T T'" using same_static_trans[OF p1(6) r(7)] .
        moreover have "D \<subseteq> D'" using p1(2) r(4) by auto
        ultimately show ?thesis using r(2,3) by blast
      qed
    qed
  qed
qed

lemma loop_invD:
  assumes "loop_inv P D T processed stack"
  shows "fin_inv P D T" "quiet D T" "set stack \<subseteq> D" "processed \<subseteq> D"
    "0 \<in> processed \<or> 0 \<in> set stack"
    "\<And>S c x. S \<in> processed \<Longrightarrow> (c, x) \<in> set (trans_of T S) \<Longrightarrow>
              x \<in> processed \<or> x \<in> set stack"
    "\<And>i c x. i < length stack \<Longrightarrow> stack ! i \<in> processed \<Longrightarrow>
              (c, x) \<in> set (trans_of T (stack ! i)) \<Longrightarrow>
              x \<in> processed \<or> x \<in> set (drop (Suc i) stack)"
proof -
  from assms have a: "fin_inv P D T \<and> quiet D T \<and> set stack \<subseteq> D \<and> processed \<subseteq> D
     \<and> (0 \<in> processed \<or> 0 \<in> set stack)"
    and b: "\<forall>S\<in>processed. \<forall>c x. (c, x) \<in> set (trans_of T S) \<longrightarrow> x \<in> processed \<or> x \<in> set stack"
    and c: "\<forall>i<length stack. stack ! i \<in> processed \<longrightarrow>
           (\<forall>c x. (c, x) \<in> set (trans_of T (stack ! i)) \<longrightarrow>
              x \<in> processed \<or> x \<in> set (drop (Suc i) stack))"
    unfolding loop_inv_def by simp_all
  show "fin_inv P D T" "quiet D T" "set stack \<subseteq> D" "processed \<subseteq> D"
    "0 \<in> processed \<or> 0 \<in> set stack" using a by simp_all
  show "\<And>S c x. S \<in> processed \<Longrightarrow> (c, x) \<in> set (trans_of T S) \<Longrightarrow>
              x \<in> processed \<or> x \<in> set stack"
    using b by blast
  show "\<And>i c x. i < length stack \<Longrightarrow> stack ! i \<in> processed \<Longrightarrow>
              (c, x) \<in> set (trans_of T (stack ! i)) \<Longrightarrow>
              x \<in> processed \<or> x \<in> set (drop (Suc i) stack)"
    using c by blast
qed

lemma loop_invI:
  assumes "fin_inv P D T" "quiet D T" "set stack \<subseteq> D" "processed \<subseteq> D"
    "0 \<in> processed \<or> 0 \<in> set stack"
    "\<And>S c x. S \<in> processed \<Longrightarrow> (c, x) \<in> set (trans_of T S) \<Longrightarrow>
              x \<in> processed \<or> x \<in> set stack"
    "\<And>i c x. i < length stack \<Longrightarrow> stack ! i \<in> processed \<Longrightarrow>
              (c, x) \<in> set (trans_of T (stack ! i)) \<Longrightarrow>
              x \<in> processed \<or> x \<in> set (drop (Suc i) stack)"
  shows "loop_inv P D T processed stack"
proof -
  have b: "\<forall>S\<in>processed. \<forall>c x. (c, x) \<in> set (trans_of T S) \<longrightarrow> x \<in> processed \<or> x \<in> set stack"
    using assms(6) by blast
  have c: "\<forall>i<length stack. stack ! i \<in> processed \<longrightarrow>
           (\<forall>c x. (c, x) \<in> set (trans_of T (stack ! i)) \<longrightarrow>
              x \<in> processed \<or> x \<in> set (drop (Suc i) stack))"
    using assms(7) by blast
  show ?thesis unfolding loop_inv_def using assms(1-5) b c by simp
qed

lemma process_loop_Nil: "process_loop depth T processed [] = Some (Inr (), T)"
  by (subst process_loop.simps) simp

lemma process_loop_snoc:
  "process_loop depth T processed (rest @ [S]) =
     Option.bind
       (process_children depth T S (length (trans_of T S)) (insert (identifier (state_at T S)) processed)
          (map snd (trans_of T S)) rest)
       (\<lambda>(r, T1). case r of
            Inl e \<Rightarrow> Some (Inl e, T1)
          | Inr to_process2 \<Rightarrow>
              process_loop depth T1 (insert (identifier (state_at T S)) processed) to_process2)"
  by (subst process_loop.simps) (simp add: Let_def)

lemma closed_all:
  assumes sk: "skeleton P T" and z: "0 \<in> A"
    and cl: "\<And>S c x. S \<in> A \<Longrightarrow> (c, x) \<in> set (trans_of T S) \<Longrightarrow> x \<in> A"
  shows "a < counter T \<Longrightarrow> a \<in> A"
proof (induction "length (P a)" arbitrary: a rule: less_induct)
  case less
  show ?case
  proof (cases "a = 0")
    case True
    then show ?thesis using z by simp
  next
    case False
    obtain p c where pc: "p < counter T" "P a = P p @ [c]" "map_of (trans_of T p) c = Some a"
      using skeleton_parent[OF sk less.prems False] by metis
    have "p \<in> A" using less.hyps[of p] pc(1,2) by simp
    moreover have "(c, a) \<in> set (trans_of T p)" using pc(3) by (rule map_of_SomeD)
    ultimately show ?thesis using cl by blast
  qed
qed

lemma process_loop_correct:
  assumes "loop_inv P D T processed stack"
  shows "(\<exists>T'. process_loop depth T processed stack = Some (Inl RecursionError, T')
              \<and> (\<exists>a<counter T. depth < length (P a)))
       \<or> (\<exists>T' D'. process_loop depth T processed stack = Some (Inr (), T') \<and> fin_inv P D' T'
           \<and> (\<forall>a<counter T'. a \<in> D') \<and> same_static T T')"
  using wf_lex_prod[OF wf_less_than wf_less_than] assms
proof (induction "(card ({..<counter T} - processed), length stack)"
        arbitrary: T D processed stack rule: wf_induct_rule)
  case less
  note li = less.prems
  have inv: "fin_inv P D T" and qu: "quiet D T" and sD: "set stack \<subseteq> D" and pD: "processed \<subseteq> D"
    and zero: "0 \<in> processed \<or> 0 \<in> set stack"
    and I: "\<And>S c x. S \<in> processed \<Longrightarrow> (c, x) \<in> set (trans_of T S) \<Longrightarrow>
              x \<in> processed \<or> x \<in> set stack"
    and J: "\<And>i c x. i < length stack \<Longrightarrow> stack ! i \<in> processed \<Longrightarrow>
              (c, x) \<in> set (trans_of T (stack ! i)) \<Longrightarrow>
              x \<in> processed \<or> x \<in> set (drop (Suc i) stack)"
    using loop_invD[OF li] by blast+
  note sk = fin_invD(1)[OF inv]
  show ?case
  proof (cases stack rule: rev_cases)
    case Nil
    have z: "0 \<in> processed" using zero Nil by simp
    have "a \<in> processed" if "a < counter T" for a
      by (rule closed_all[OF sk z _ that]) (use I Nil in auto)
    then have "\<forall>a<counter T. a \<in> D" using pD by auto
    then show ?thesis using Nil process_loop_Nil inv same_static_refl by auto
  next
    case (snoc rest S)
    have SD: "S \<in> D" using sD snoc by simp
    have Sc: "S < counter T" using fin_invD(3)[OF inv SD] .
    have idS: "identifier (state_at T S) = S" using ident_at[OF sk Sc] .
    let ?pr = "insert S processed"
    let ?ch = "map snd (trans_of T S)"
    define new where "new = filter (\<lambda>x. x \<notin> ?pr) ?ch"
    have new_set: "x \<in> set new \<longleftrightarrow> (\<exists>c. (c, x) \<in> set (trans_of T S)) \<and> x \<noteq> S \<and> x \<notin> processed"
      for x unfolding new_def by force
    have "(\<exists>T'. process_children depth T S (length (trans_of T S)) ?pr ?ch rest
                = Some (Inl RecursionError, T')
              \<and> (\<exists>x\<in>set ?ch. depth < length (P x)))
       \<or> (\<exists>T' D'. process_children depth T S (length (trans_of T S)) ?pr ?ch rest
            = Some (Inr (rest @ new), T')
          \<and> fin_inv P D' T' \<and> quiet D' T' \<and> D \<subseteq> D'
          \<and> set new \<subseteq> D'
          \<and> (\<forall>a\<in>D. state_at T' a = state_at T a) \<and> same_static T T')"
      unfolding new_def by (rule process_children_correct[OF inv qu SD refl]) auto
    then show ?thesis
    proof (elim disjE exE conjE bexE)
      fix T1 x
      assume e: "process_children depth T S (length (trans_of T S)) ?pr ?ch rest
                = Some (Inl RecursionError, T1)" "x \<in> set ?ch" "depth < length (P x)"
      obtain c where "(c, x) \<in> set (trans_of T S)" using e(2) by auto
      then have "x < counter T" using sk Sc unfolding skeleton_def edges_ok_def by blast
      moreover have "process_loop depth T processed stack = Some (Inl RecursionError, T1)"
        unfolding snoc process_loop_snoc idS e(1) by simp
      ultimately show ?thesis using e(3) by blast
    next
      fix T1 D1
      assume pc: "process_children depth T S (length (trans_of T S)) ?pr ?ch rest
            = Some (Inr (rest @ new), T1)"
        "fin_inv P D1 T1" "quiet D1 T1" "D \<subseteq> D1" "set new \<subseteq> D1"
        "\<forall>a\<in>D. state_at T1 a = state_at T a" "same_static T T1"
    have c1: "counter T1 = counter T" using same_staticD(1)[OF pc(7)] .
    have tr: "trans_of T1 a = trans_of T a" if "a \<in> D" for a using pc(6) that by simp
    have unf: "process_loop depth T processed stack = process_loop depth T1 ?pr (rest @ new)"
      unfolding snoc process_loop_snoc idS pc(1) by simp
    have child: "x \<in> ?pr \<or> x \<in> set new" if "(c, x) \<in> set (trans_of T S)" for c x
      using that new_set[of x] by blast
    have li1: "loop_inv P D1 T1 ?pr (rest @ new)"
    proof -
      have a: "set (rest @ new) \<subseteq> D1" using sD snoc pc(4,5) by auto
      have b: "?pr \<subseteq> D1" using pD SD pc(4) by auto
      have c: "0 \<in> ?pr \<or> 0 \<in> set (rest @ new)" using zero snoc by auto
      have d: "x \<in> ?pr \<or> x \<in> set (rest @ new)"
        if "S' \<in> ?pr" "(c, x) \<in> set (trans_of T1 S')" for S' c x
      proof (cases "S' = S")
        case True
        then show ?thesis using that(2) tr[OF SD] child by auto
      next
        case False
        then have S': "S' \<in> processed" using that(1) by simp
        then have "(c, x) \<in> set (trans_of T S')" using that(2) tr pD by auto
        then have "x \<in> processed \<or> x \<in> set stack" using I[OF S'] by blast
        then show ?thesis using snoc by auto
      qed
      have e: "x \<in> ?pr \<or> x \<in> set (drop (Suc i) (rest @ new))"
        if i: "i < length (rest @ new)" and ip: "(rest @ new) ! i \<in> ?pr"
          and cx: "(c, x) \<in> set (trans_of T1 ((rest @ new) ! i))" for i c x
      proof (cases "i < length rest")
        case True
        then have el: "(rest @ new) ! i = rest ! i" "stack ! i = rest ! i"
          using snoc by (simp_all add: nth_append)
        have inD: "rest ! i \<in> D" using sD snoc True by auto
        have cx': "(c, x) \<in> set (trans_of T (rest ! i))" using cx el(1) tr[OF inD] by simp
        have dr: "drop (Suc i) (rest @ new) = drop (Suc i) rest @ new" using True by simp
        show ?thesis
        proof (cases "rest ! i = S")
          case True
          then show ?thesis using cx' child dr by auto
        next
          case False
          then have "stack ! i \<in> processed" using ip el by simp
          moreover have "i < length stack" using True snoc by simp
          ultimately have "x \<in> processed \<or> x \<in> set (drop (Suc i) stack)"
            using J[of i c x] cx' el(2) by simp
          moreover have "drop (Suc i) stack = drop (Suc i) rest @ [S]"
            using True snoc by simp
          ultimately show ?thesis using dr by auto
        qed
      next
        case False
        then have "(rest @ new) ! i = new ! (i - length rest)" "i - length rest < length new"
          using i by (auto simp: nth_append)
        then have "(rest @ new) ! i \<in> set new" using nth_mem[of "i - length rest" new] by simp
        then show ?thesis using ip new_set[of "(rest @ new) ! i"] by blast
      qed
      show ?thesis by (rule loop_invI[OF pc(2,3) a b c d e])
    qed
    have dec: "((card ({..<counter T1} - ?pr), length (rest @ new)),
                (card ({..<counter T} - processed), length stack))
               \<in> less_than <*lex*> less_than"
    proof (cases "S \<in> processed")
      case True
      have "x \<in> ?pr" if "(c, x) \<in> set (trans_of T S)" for c x
      proof -
        have "length rest < length stack" "stack ! length rest = S" using snoc by simp_all
        then have "x \<in> processed \<or> x \<in> set (drop (Suc (length rest)) stack)"
          using J[of "length rest" c x] True that by simp
        then show ?thesis using snoc by simp
      qed
      then have "x \<notin> set new" for x using new_set[of x] by blast
      then have "new = []" by (cases new) auto
      moreover have "?pr = processed" using True by auto
      ultimately show ?thesis using snoc c1 by simp
    next
      case False
      have "{..<counter T} - ?pr \<subset> {..<counter T} - processed"
        using False Sc by auto
      then have "card ({..<counter T} - ?pr) < card ({..<counter T} - processed)"
        by (intro psubset_card_mono) auto
      then show ?thesis using c1 by simp
    qed
    have "(\<exists>T'. process_loop depth T1 ?pr (rest @ new) = Some (Inl RecursionError, T')
              \<and> (\<exists>a<counter T1. depth < length (P a)))
       \<or> (\<exists>T' D'. process_loop depth T1 ?pr (rest @ new) = Some (Inr (), T')
           \<and> fin_inv P D' T' \<and> (\<forall>a<counter T'. a \<in> D') \<and> same_static T1 T')"
      using less.hyps[OF dec li1] .
    then show ?thesis
    proof (elim disjE exE conjE)
      fix T' a
      assume "process_loop depth T1 ?pr (rest @ new) = Some (Inl RecursionError, T')"
        "a < counter T1" "depth < length (P a)"
      then show ?thesis unfolding unf c1 by blast
    next
      fix T' D'
      assume fin: "process_loop depth T1 ?pr (rest @ new) = Some (Inr (), T')"
        "fin_inv P D' T'" "\<forall>a<counter T'. a \<in> D'" "same_static T1 T'"
      have "same_static T T'" using same_static_trans[OF pc(7) fin(4)] .
      then show ?thesis using unf fin by auto
    qed
    qed
  qed
qed

text \<open>No call of \<open>finalize\<close>'s helpers writes the flag \<open>_finalized\<close>.\<close>

lemma search_lss_finalized:
  "search_lss depth T s = Some (r, T') \<Longrightarrow> finalized T' = finalized T"
proof (induction depth arbitrary: T s r T')
  case 0
  then show ?case by simp
next
  case (Suc depth)
  show ?case using Suc.prems Suc.IH
    by (auto simp: search_lss.simps(2) Let_def
             split: option.splits sum.splits if_splits prod.splits Option.bind_splits)
qed

lemma process_children_finalized:
  "process_children depth T state n processed children to_process = Some (r, T')
   \<Longrightarrow> finalized T' = finalized T"
proof (induction children arbitrary: T to_process)
  case Nil
  then show ?case by (auto split: if_splits)
next
  case (Cons x children)
  show ?case
  proof (cases "length (trans_of T state) \<noteq> n \<or> identifier (state_at T x) \<in> processed")
    case True
    then show ?thesis using Cons.prems Cons.IH by (auto split: if_splits)
  next
    case False
    obtain r1 T1 where rec: "search_lss depth T x = Some (r1, T1)"
      using Cons.prems False by (auto split: Option.bind_splits)
    have f1: "finalized T1 = finalized T" using search_lss_finalized[OF rec] .
    show ?thesis
    proof (cases r1)
      case (Inl e)
      then show ?thesis using Cons.prems False rec f1 by simp
    next
      case (Inr u)
      then have "process_children depth T1 state n processed children (to_process @ [x])
                   = Some (r, T')"
        using Cons.prems False rec by simp
      then show ?thesis using Cons.IH f1 by simp
    qed
  qed
qed

lemma process_loop_finalized_aux:
  assumes "process_loop depth T processed to_process = Some y"
  shows "finalized (snd y) = finalized T"
  using assms
proof (induction rule: process_loop.raw_induct[rotated 1, consumes 1, case_names step])
  case (step loop depth T processed to_process y)
  note 1 = step
  show ?case
  proof (cases "to_process = []")
    case True
    then show ?thesis using 1(2) by auto
  next
    case False
    define S where "S = last to_process"
    define pr where "pr = insert (identifier (state_at T S)) processed"
    obtain r1 T1 where pc: "process_children depth T S (length (map snd (trans_of T S))) pr
                              (map snd (trans_of T S)) (butlast to_process) = Some (r1, T1)"
      using 1(2) False unfolding S_def pr_def by (auto simp: Let_def split: Option.bind_splits)
    have f1: "finalized T1 = finalized T" using process_children_finalized[OF pc] .
    show ?thesis
    proof (cases r1)
      case (Inl e)
      then show ?thesis using 1(2) False pc f1 unfolding S_def pr_def by (auto simp: Let_def)
    next
      case (Inr tp)
      then have "loop depth T1 pr tp = Some y"
        using 1(2) False pc unfolding S_def pr_def by (simp add: Let_def)
      then show ?thesis using 1(1) f1 by simp
    qed
  qed
qed

lemma process_loop_finalized:
  "process_loop depth T processed to_process = Some (r, T') \<Longrightarrow> finalized T' = finalized T"
  using process_loop_finalized_aux[of depth T processed to_process "(r, T')"] by simp

text \<open>
  A call that returns under a recursion limit returns the same under every larger limit.
\<close>

lemma search_lss_mono:
  assumes "search_lss depth T s = Some (Inr (), T')" "depth \<le> depth'"
  shows "search_lss depth' T s = Some (Inr (), T')"
  using assms
proof (induction depth arbitrary: depth' T s T')
  case 0
  then show ?case by simp
next
  case (Suc depth)
  obtain d where d: "depth' = Suc d" "depth \<le> d" using Suc.prems(2) by (cases depth') auto
  note run = Suc.prems(1)[unfolded search_lss.simps(2)]
  obtain p where p: "parent_of T s = Some p" using run by (cases "parent_of T s") auto
  obtain r where w: "lss_walk T s (lss_of T p) = Some r"
    using run p by (cases "lss_walk T s (lss_of T p)") auto
  obtain f where f: "r = Inr f" using run p w by (cases r) auto
  let ?T1 = "update_state T s (\<lambda>st. st\<lparr>longest_strict_suffix := Some f\<rparr>)"
  show ?case
  proof (cases "f = zero_state T \<or> lss_of ?T1 f \<noteq> None")
    case True
    then show ?thesis
      using run p w f unfolding d(1) search_lss.simps(2) by (auto simp: Let_def)
  next
    case False
    then obtain r2 T2 where rec: "search_lss depth ?T1 f = Some (r2, T2)"
      using run p w f by (auto simp: Let_def split: Option.bind_splits)
    have r2: "r2 = Inr ()" using run p w f False rec by (cases r2) (auto simp: Let_def)
    have "search_lss d ?T1 f = Some (Inr (), T2)"
      using Suc.IH[OF _ d(2)] rec r2 by simp
    then show ?thesis
      using run p w f False rec r2 unfolding d(1) search_lss.simps(2) by (auto simp: Let_def)
  qed
qed

lemma process_children_mono:
  assumes "process_children depth T state n processed children to_process = Some (Inr tp, T')"
    "depth \<le> depth'"
  shows "process_children depth' T state n processed children to_process = Some (Inr tp, T')"
  using assms
proof (induction children arbitrary: T to_process)
  case Nil
  then show ?case by (simp split: if_splits)
next
  case (Cons x children)
  show ?case
  proof (cases "length (trans_of T state) \<noteq> n \<or> identifier (state_at T x) \<in> processed")
    case True
    then show ?thesis using Cons.prems Cons.IH by (auto split: if_splits)
  next
    case False
    obtain r1 T1 where rec: "search_lss depth T x = Some (r1, T1)"
      using Cons.prems(1) False by (auto split: Option.bind_splits)
    have r1: "r1 = Inr ()" using Cons.prems(1) False rec by (cases r1) auto
    have "search_lss depth' T x = Some (Inr (), T1)"
      using search_lss_mono[OF _ Cons.prems(2)] rec r1 by simp
    moreover have "process_children depth T1 state n processed children (to_process @ [x])
                     = Some (Inr tp, T')"
      using Cons.prems(1) False rec r1 by simp
    ultimately show ?thesis using False Cons.IH[OF _ Cons.prems(2)] by simp
  qed
qed

lemma process_loop_mono_aux:
  assumes "process_loop depth T processed to_process = Some y"
  shows "fst y = Inr () \<longrightarrow>
         (\<forall>depth'\<ge>depth. process_loop depth' T processed to_process = Some y)"
  using assms
proof (induction rule: process_loop.raw_induct[rotated 1, consumes 1, case_names step])
  case (step loop depth T processed to_process y)
  note 1 = step
  show ?case
  proof (intro impI allI)
    fix depth' assume y: "fst y = Inr ()" and le: "depth \<le> depth'"
    show "process_loop depth' T processed to_process = Some y"
    proof (cases "to_process = []")
      case True
      then show ?thesis using 1(2) by (simp add: process_loop_Nil)
    next
      case False
      define S where "S = last to_process"
      define pr where "pr = insert (identifier (state_at T S)) processed"
      obtain r1 T1 where pc: "process_children depth T S (length (map snd (trans_of T S))) pr
                                (map snd (trans_of T S)) (butlast to_process) = Some (r1, T1)"
        using 1(2) False unfolding S_def pr_def by (auto simp: Let_def split: Option.bind_splits)
      obtain tp where r1: "r1 = Inr tp"
        using 1(2) False pc y unfolding S_def pr_def by (cases r1) (auto simp: Let_def)
      have rec: "loop depth T1 pr tp = Some y"
        using 1(2) False pc r1 unfolding S_def pr_def by (simp add: Let_def)
      have "process_loop depth' T1 pr tp = Some y" using 1(1)[OF rec] y le by simp
      moreover have "process_children depth' T S (length (map snd (trans_of T S))) pr
                       (map snd (trans_of T S)) (butlast to_process) = Some (Inr tp, T1)"
        using process_children_mono[OF _ le] pc r1 by simp
      ultimately show ?thesis
        using False unfolding S_def pr_def by (subst process_loop.simps) (simp add: Let_def)
    qed
  qed
qed

lemma finalize_mono:
  assumes "finalize depth T = Some (Inr (), T')" "depth \<le> depth'"
  shows "finalize depth' T = Some (Inr (), T')"
proof -
  have nf: "\<not> finalized T" using assms(1) by (auto simp: finalize_def split: if_splits)
  let ?T1 = "update_state T (zero_state T) (\<lambda>s. s\<lparr>longest_strict_suffix := Some (zero_state T)\<rparr>)"
  obtain r T2 where pl: "process_loop depth ?T1 {} [zero_state T] = Some (r, T2)"
    using assms(1) nf
    by (auto simp: finalize_def search_lss_for_children_def Let_def split: Option.bind_splits)
  have r: "r = Inr ()" "T' = T2\<lparr>finalized := True\<rparr>"
    using assms(1) nf pl
    by (cases r; simp add: finalize_def search_lss_for_children_def Let_def)+
  have "process_loop depth' ?T1 {} [zero_state T] = Some (r, T2)"
    using process_loop_mono_aux[OF pl] r(1) assms(2) by simp
  then show ?thesis
    using nf r by (simp add: finalize_def search_lss_for_children_def Let_def)
qed

lemma terminals_static:
  assumes "terminals lower ci ks P T" "same_static T T'"
  shows "terminals lower ci ks P T'"
  using assms(1) unfolding terminals_def by (simp add: same_staticD[OF assms(2)])

lemma same_static_finalized: "same_static T (T\<lparr>finalized := b\<rparr>)"
  by (simp add: same_static_def state_at_def)

lemma fin_inv_static:
  assumes inv: "fin_inv P D T" and st: "same_static T T'"
    and same: "\<And>a. state_at T' a = state_at T a"
  shows "fin_inv P D T'"
proof -
  note sk = fin_invD(1)[OF inv]
  have sk': "skeleton P T'"
    by (rule skeleton_cong[OF sk]) (simp_all add: same_staticD[OF st] same)
  have own: "own_only T' a" if "a < counter T'" "a \<notin> D" for a
    using fin_invD(5)[OF inv _ that(2)] that(1)
    unfolding own_only_def same same_staticD(1)[OF st] by blast
  have dn: "done_node P D T' a" if "a \<in> D" for a
    by (rule done_node_frame[OF inv that same st])
  show ?thesis
    unfolding fin_inv_def
    using sk' own dn fin_invD(2,3,4)[OF inv] by (simp add: same same_staticD(1)[OF st])
qed

lemma finalize_built:
  assumes bi: "built_inv lower ci ks P T"
  shows "(\<exists>T'. finalize depth T = Some (Inl RecursionError, T') \<and> \<not> finalized T'
              \<and> (\<exists>k\<in>set ks. depth < length (normal_form lower ci k)))
       \<or> (\<exists>T'. finalize depth T = Some (Inr (), T') \<and> finalized_inv lower ci ks P T'
              \<and> same_static T T')"
proof -
  have nf: "\<not> finalized T" and ci: "case_insensitive T = ci"
    and sk: "skeleton P T" and un: "unresolved T" and te: "terminals lower ci ks P T"
    using bi by (simp_all add: built_inv_def)
  have z: "zero_state T = 0" "0 < counter T" "P 0 = []" using skeleton_root[OF sk] by auto
  let ?T1 = "update_state T 0 (\<lambda>s. s\<lparr>longest_strict_suffix := Some 0\<rparr>)"
  have al: "heap T 0 \<noteq> None" using heap_allocated[OF sk z(2)] .
  have st1: "same_static T ?T1" using same_static_set_lss[OF al] .
  have sk1: "skeleton P ?T1"
    by (rule skeleton_cong[OF sk]) (use al in auto)
  have tr1: "trans_of ?T1 a = trans_of T a" and pa1: "parent_of ?T1 a = parent_of T a" for a
    by simp_all
  have own: "parent_of T x = Some a" if "a < counter T" "(c, x) \<in> set (trans_of T a)" for a c x
    using un that unfolding unresolved_def by blast
  have inv1: "fin_inv P {0} ?T1"
  proof -
    have "own_only ?T1 a" if "a < counter ?T1" "a \<notin> {0}" for a
      unfolding own_only_def tr1 pa1 using own[of a] that(1) by auto
    moreover have "done_node P {0} ?T1 0"
      unfolding done_node_def tr1 pa1 using own[OF z(2)] by auto
    ultimately show ?thesis
      unfolding fin_inv_def using sk1 z(2) by simp
  qed
  have qu1: "quiet {0} ?T1"
    unfolding quiet_def using un by (auto simp: unresolved_def)
  have li: "loop_inv P {0} ?T1 {} [0]"
    by (rule loop_invI[OF inv1 qu1]) simp_all
  have unf: "finalize depth T =
      Option.bind (process_loop depth ?T1 {} [0])
        (\<lambda>(r, T2). case r of Inl e \<Rightarrow> Some (Inl e, T2)
                   | Inr _ \<Rightarrow> Some (Inr (), T2\<lparr>finalized := True\<rparr>))"
    using nf z(1) by (simp add: finalize_def search_lss_for_children_def Let_def)
  have "(\<exists>T'. process_loop depth ?T1 {} [0] = Some (Inl RecursionError, T')
              \<and> (\<exists>a<counter ?T1. depth < length (P a)))
       \<or> (\<exists>T' D'. process_loop depth ?T1 {} [0] = Some (Inr (), T') \<and> fin_inv P D' T'
           \<and> (\<forall>a<counter T'. a \<in> D') \<and> same_static ?T1 T')"
    by (rule process_loop_correct[OF li])
  then show ?thesis
  proof (elim disjE exE conjE)
    fix T2 a
    assume e: "process_loop depth ?T1 {} [0] = Some (Inl RecursionError, T2)"
      "a < counter ?T1" "depth < length (P a)"
    have a0: "a \<noteq> 0"
    proof
      assume "a = 0"
      then show False using e(3) z(3) by simp
    qed
    have ac: "a < counter T" using e(2) by simp
    obtain k where k: "k \<in> set ks" "length (P a) \<le> length (normal_form lower ci k)"
      using te ac a0 unfolding terminals_def by blast
    have "finalize depth T = Some (Inl RecursionError, T2)" unfolding unf e(1) by simp
    moreover have "\<not> finalized T2" using process_loop_finalized[OF e(1)] nf by simp
    moreover have "depth < length (normal_form lower ci k)" using k(2) e(3) by simp
    then have "\<exists>k\<in>set ks. depth < length (normal_form lower ci k)"
      using k(1) by blast
    ultimately show ?thesis by blast
  next
    fix T2 D2
    assume r: "process_loop depth ?T1 {} [0] = Some (Inr (), T2)" "fin_inv P D2 T2"
      "\<forall>a<counter T2. a \<in> D2" "same_static ?T1 T2"
    have "D2 = {..<counter T2}" using r(3) fin_invD(3)[OF r(2)] by auto
    then have inv2: "fin_inv P {..<counter T2} T2" using r(2) by simp
    let ?T3 = "T2\<lparr>finalized := True\<rparr>"
    have st3: "same_static T2 ?T3" by (rule same_static_finalized)
    have "fin_inv P {..<counter T2} ?T3"
      by (rule fin_inv_static[OF inv2 st3]) (simp add: state_at_def)
    then have inv3: "fin_inv P {..<counter ?T3} ?T3" by simp
    have stT: "same_static T ?T3"
      using same_static_trans[OF st1 same_static_trans[OF r(4) st3]] .
    have "finalize depth T = Some (Inr (), ?T3)" unfolding unf r(1) by simp
    moreover have "finalized_inv lower ci ks P ?T3"
      unfolding finalized_inv_def
      using inv3 terminals_static[OF te stT] ci same_staticD(3)[OF stT] by simp
    ultimately show ?thesis using stT by blast
  qed
qed

text \<open>
  The outcome of the protocol: the automaton, or \<open>RecursionError\<close> when some keyword is
  longer (in the form the tree stores) than the number of nested calls the limit admits.
\<close>

lemma build_correct:
  "(\<exists>T. build depth lower ci ks = Some (Inl RecursionError, T) \<and> \<not> finalized T
        \<and> (\<exists>k\<in>set ks. depth < length (normal_form lower ci k)))
   \<or> (\<exists>T P. build depth lower ci ks = Some (Inr (), T) \<and> finalized_inv lower ci ks P T
        \<and> same_static (built lower ci ks) T)"
proof -
  obtain P where "built_inv lower ci ks P (built lower ci ks)" using built_invariant by blast
  from finalize_built[OF this, of depth] show ?thesis unfolding build_eq by blast
qed

lemma build_sufficient:
  assumes "\<And>k. k \<in> set ks \<Longrightarrow> length (normal_form lower ci k) \<le> depth"
  obtains T P where "build depth lower ci ks = Some (Inr (), T)"
    "finalized_inv lower ci ks P T" "same_static (built lower ci ks) T"
proof -
  have "\<not> (\<exists>k\<in>set ks. depth < length (normal_form lower ci k))"
    using assms by (auto simp: not_less)
  then show ?thesis using build_correct[of depth lower ci ks] that by blast
qed

lemma build_success:
  assumes "build depth lower ci ks = Some (Inr (), T)"
  obtains P where "finalized_inv lower ci ks P T" "same_static (built lower ci ks) T"
  using build_correct[of depth lower ci ks] assms that by auto

lemma build_mono:
  assumes "build depth lower ci ks = Some (Inr (), T)" "depth \<le> depth'"
  shows "build depth' lower ci ks = Some (Inr (), T)"
  using assms unfolding build_eq by (rule finalize_mono)

section \<open>Searching\<close>

lemma report_chain_zero: "report_chain T (Some (zero_state T)) ret = Some (Inr ret)"
  by (subst report_chain.simps) simp

lemma report_chain_step:
  "s \<noteq> zero_state T \<Longrightarrow> report_chain T (Some s) ret =
     report_chain T (lss_of T s)
       (if success (state_at T s) then ret @ [keyword_at T s] else ret)"
  by (subst report_chain.simps) simp

lemma report_chain_correct:
  assumes inv: "fin_inv P {..<counter T} T"
  shows "s < counter T \<Longrightarrow> \<exists>ns. reported_from P T s ns"
proof (induction "length (P s)" arbitrary: s rule: less_induct)
  case less
  note sk = fin_invD(1)[OF inv]
  have z: "zero_state T = 0" using skeleton_root(1)[OF sk] .
  show ?case
  proof (cases "s = 0")
    case True
    have "reported_from P T s []"
      unfolding reported_from_def using True z report_chain_zero[of T] by simp
    then show ?thesis by blast
  next
    case False
    have sD: "s \<in> {..<counter T}" using less.prems by simp
    obtain f where f: "lss_of T s = Some f" "f \<in> {..<counter T}" "strict_suffix (P f) (P s)"
      using fin_inv_lss[OF inv sD] False by metis
    have flen: "length (P f) < length (P s)" using strict_suffix_length[OF f(3)] .
    have fsfx: "suffix (P f) (P s)" using f(3) by (simp add: strict_suffix_def)
    obtain ns where ns: "reported_from P T f ns"
      using less.hyps[OF flen] f(2) by auto
    have run: "\<And>ret. report_chain T (Some f) ret = Some (Inr (ret @ map (keyword_at T) ns))"
      and mem: "\<And>n. n \<in> set ns \<Longrightarrow>
                 n < counter T \<and> n \<noteq> 0 \<and> success (state_at T n) \<and> suffix (P n) (P f)"
      and srt: "sorted_wrt (\<lambda>a b. length (P b) < length (P a)) ns"
      using ns unfolding reported_from_def by blast+
    define ms where "ms = (if success (state_at T s) then [s] else []) @ ns"
    have a: "report_chain T (Some s) ret = Some (Inr (ret @ map (keyword_at T) ms))" for ret
      using report_chain_step[of s T ret] False z f(1) run unfolding ms_def by simp
    have b: "n < counter T \<and> n \<noteq> 0 \<and> success (state_at T n) \<and> suffix (P n) (P s)"
      if "n \<in> set ms" for n
    proof (cases "n \<in> set ns")
      case True
      then show ?thesis using mem[OF True] fsfx suffix_order.trans by blast
    next
      case nin: False
      then have "n = s" "success (state_at T s)"
        using that unfolding ms_def by (auto split: if_splits)
      then show ?thesis using less.prems False by simp
    qed
    have "length (P n) < length (P s)" if "n \<in> set ns" for n
      using mem[OF that] flen suffix_length_le[of "P n" "P f"] by simp
    then have c: "sorted_wrt (\<lambda>a b. length (P b) < length (P a)) ms"
      unfolding ms_def using srt by (auto simp: sorted_wrt_append)
    have "reported_from P T s ms"
      unfolding reported_from_def using a b c by blast
    then show ?thesis by blast
  qed
qed

lemma goto_correct:
  assumes inv: "fin_inv P {..<counter T} T" and cur: "cur < counter T"
  shows "goto T cur c < counter T" "suffix (P (goto T cur c)) (P cur @ [c])"
proof -
  note sk = fin_invD(1)[OF inv]
  have z: "zero_state T = 0" "0 < counter T" "P 0 = []" using skeleton_root[OF sk] by auto
  have "goto T cur c < counter T \<and> suffix (P (goto T cur c)) (P cur @ [c])"
  proof (cases "map_of (trans_of T cur) c")
    case (Some x)
    then show ?thesis using skeleton_target[OF sk cur Some] by (simp add: goto_def)
  next
    case None
    show ?thesis
    proof (cases "map_of (trans_of T 0) c")
      case (Some x)
      have "suffix (P x) ([] @ [c])" using skeleton_target(4)[OF sk z(2) Some] z(3) by simp
      then have "suffix (P x) (P cur @ [c])" by (auto simp: suffix_def)
      then show ?thesis using None Some z skeleton_target(1)[OF sk z(2) Some]
        by (simp add: goto_def)
    next
      case n0: None
      then show ?thesis using None z by (simp add: goto_def)
    qed
  qed
  then show "goto T cur c < counter T" "suffix (P (goto T cur c)) (P cur @ [c])" by simp_all
qed

lemma scan_correct:
  assumes inv: "fin_inv P {..<counter T} T"
  shows "cur < counter T \<Longrightarrow> suffix (P cur) pre \<Longrightarrow> \<exists>nss. scan_result P T cur pre text nss"
proof (induction "text" arbitrary: cur pre)
  case Nil
  have "scan_result P T cur pre [] []" unfolding scan_result_def by simp
  then show ?case by blast
next
  case (Cons c rest)
  let ?x = "goto T cur c"
  have x: "?x < counter T" "suffix (P ?x) (P cur @ [c])"
    using goto_correct[OF inv Cons.prems(1)] by auto
  have "suffix (P cur @ [c]) (pre @ [c])" using Cons.prems(2) by (rule suffix_snoc_both)
  then have xs: "suffix (P ?x) (pre @ [c])" using x(2) suffix_order.trans by blast
  obtain ns where ns: "reported_from P T ?x ns"
    using report_chain_correct[OF inv x(1)] by blast
  have run: "\<And>ret. report_chain T (Some ?x) ret = Some (Inr (ret @ map (keyword_at T) ns))"
    and mem: "\<And>n. n \<in> set ns \<Longrightarrow>
               n < counter T \<and> n \<noteq> 0 \<and> success (state_at T n) \<and> suffix (P n) (P ?x)"
    and srt: "sorted_wrt (\<lambda>a b. length (P b) < length (P a)) ns"
    using ns unfolding reported_from_def by blast+
  obtain nss where nss: "scan_result P T ?x (pre @ [c]) rest nss"
    using Cons.IH[OF x(1) xs] by blast
  have len: "length nss = length rest"
    and g: "search_groups T ?x rest = Some (Inr (map (map (keyword_at T)) nss))"
    and l: "\<And>ret. search_loop T ?x rest ret
              = Some (Inr (ret @ concat (map (map (keyword_at T)) nss)))"
    and m: "\<And>i n. i < length rest \<Longrightarrow> n \<in> set (nss ! i) \<Longrightarrow>
           n < counter T \<and> n \<noteq> 0 \<and> success (state_at T n)
           \<and> suffix (P n) ((pre @ [c]) @ take (Suc i) rest)"
    and s: "\<And>i. i < length rest \<Longrightarrow> sorted_wrt (\<lambda>a b. length (P b) < length (P a)) (nss ! i)"
    using nss unfolding scan_result_def by blast+
  have a: "length (ns # nss) = length (c # rest)" using len by simp
  have b: "search_groups T cur (c # rest) = Some (Inr (map (map (keyword_at T)) (ns # nss)))"
    using run[of "[]"] g by (simp add: Let_def)
  have c': "search_loop T cur (c # rest) ret
              = Some (Inr (ret @ concat (map (map (keyword_at T)) (ns # nss))))" for ret
    using run[of ret] l by (simp add: Let_def)
  have d: "n < counter T \<and> n \<noteq> 0 \<and> success (state_at T n)
           \<and> suffix (P n) (pre @ take (Suc i) (c # rest))"
    if "i < length (c # rest)" "n \<in> set ((ns # nss) ! i)" for i n
  proof (cases i)
    case 0
    then have "n \<in> set ns" using that(2) by simp
    then show ?thesis using mem[of n] xs 0 suffix_order.trans by auto
  next
    case (Suc j)
    then have "j < length rest" "n \<in> set (nss ! j)" using that by simp_all
    then show ?thesis using m[of j n] Suc by simp
  qed
  have e: "sorted_wrt (\<lambda>a b. length (P b) < length (P a)) ((ns # nss) ! i)"
    if "i < length (c # rest)" for i
    using that srt s by (cases i) simp_all
  have "scan_result P T cur pre (c # rest) (ns # nss)"
    unfolding scan_result_def using a b c' d e by blast
  then show ?case by blast
qed

section \<open>The properties of the specification\<close>

subsection \<open>The parameters of the protocol\<close>

text \<open>
  A search that returns a list under one recursion limit returns it under every larger one,
  and the protocol depends on \<open>lower\<close> only through its values on the keywords and the
  text.
\<close>

lemma search_built_mono:
  assumes "search_built depth lower ci ks tx = Some (Inr r)" "depth \<le> depth'"
  shows "search_built depth' lower ci ks tx = Some (Inr r)"
proof -
  obtain res T where b: "build depth lower ci ks = Some (res, T)"
    using assms(1) by (auto simp: search_built_def split: Option.bind_splits)
  have res: "res = Inr ()" using assms(1) b by (cases res) (auto simp: search_built_def)
  have "build depth' lower ci ks = Some (Inr (), T)"
    using build_mono[OF _ assms(2)] b res by simp
  then show ?thesis using assms(1) b res by (simp add: search_built_def)
qed

lemma search_built_by_position_mono:
  assumes "search_built_by_position depth lower ci ks tx = Some (Inr r)" "depth \<le> depth'"
  shows "search_built_by_position depth' lower ci ks tx = Some (Inr r)"
proof -
  obtain res T where b: "build depth lower ci ks = Some (res, T)"
    using assms(1) by (auto simp: search_built_by_position_def split: Option.bind_splits)
  have res: "res = Inr ()"
    using assms(1) b by (cases res) (auto simp: search_built_by_position_def)
  have "build depth' lower ci ks = Some (Inr (), T)"
    using build_mono[OF _ assms(2)] b res by simp
  then show ?thesis using assms(1) b res by (simp add: search_built_by_position_def)
qed

lemma add_all_cong:
  assumes "\<And>k. k \<in> set ks \<Longrightarrow> lower k = lower' k"
  shows "add_all lower T ks = add_all lower' T ks"
  using assms
proof (induction ks arbitrary: T)
  case Nil
  then show ?case by simp
next
  case (Cons k ks)
  have "add lower T k = add lower' T k" using Cons.prems by (simp add: add_def)
  moreover have "add_all lower T1 ks = add_all lower' T1 ks" for T1
    using Cons.IH Cons.prems by simp
  ultimately show ?case by (simp split: prod.splits sum.splits)
qed

lemma search_built_cong:
  assumes "\<And>k. k \<in> set ks \<Longrightarrow> lower k = lower' k" "lower tx = lower' tx"
  shows "search_built depth lower ci ks tx = search_built depth lower' ci ks tx"
    and "search_built_by_position depth lower ci ks tx
         = search_built_by_position depth lower' ci ks tx"
proof -
  have "add_all lower T ks = add_all lower' T ks" for T
    by (rule add_all_cong) (rule assms(1))
  then have b: "build depth lower ci ks = build depth lower' ci ks"
    by (simp add: build_def)
  have s: "search_all lower T tx = search_all lower' T tx"
    "search_all_by_position lower T tx = search_all_by_position lower' T tx" for T
    using assms(2) by (simp_all add: search_all_def search_all_by_position_def)
  show "search_built depth lower ci ks tx = search_built depth lower' ci ks tx"
    unfolding search_built_def b s ..
  show "search_built_by_position depth lower ci ks tx
         = search_built_by_position depth lower' ci ks tx"
    unfolding search_built_by_position_def b s ..
qed

subsection \<open>The classic example\<close>

lemma classic_by_position:
  "search_built_by_position (Suc 0) lower False
     [ascii ''a'', ascii ''ab'', ascii ''bab'', ascii ''bc'', ascii ''bca'', ascii ''c'',
      ascii ''caa''] (ascii ''abccab'')
   = Some (Inr [[Some (ascii ''a'')], [Some (ascii ''ab'')],
                [Some (ascii ''bc''), Some (ascii ''c'')], [Some (ascii ''c'')],
                [Some (ascii ''a'')], [Some (ascii ''ab'')]])"
  by code_simp

lemma classic_flat:
  "search_built (Suc 0) lower False
     [ascii ''a'', ascii ''ab'', ascii ''bab'', ascii ''bc'', ascii ''bca'', ascii ''c'',
      ascii ''caa''] (ascii ''abccab'')
   = Some (Inr [Some (ascii ''a''), Some (ascii ''ab''), Some (ascii ''bc''),
                Some (ascii ''c''), Some (ascii ''c''), Some (ascii ''a''),
                Some (ascii ''ab'')])"
  by code_simp

lemma classic_brute_force:
  "map (brute_force_at
     [ascii ''a'', ascii ''ab'', ascii ''bab'', ascii ''bc'', ascii ''bca'', ascii ''c'',
      ascii ''caa''] (ascii ''abccab'')) [0..<6]
   = [[ascii ''a''], [ascii ''ab''], [ascii ''bc'', ascii ''c''], [ascii ''c''],
      [ascii ''a''], [ascii ''ab'']]"
  by code_simp

text \<open>
  C1. The automaton of the keywords a, ab, bab, bc, bca, c, caa (case-sensitive), once
  finalized, reports on the text abccab, at every ending position, the multiset of keywords
  that the brute-force comparison reports there; and what \<open>search_all\<close> returns is these
  reports, position after position. This holds whatever \<open>str.lower\<close> does and under every
  recursion limit that admits one call of \<open>search_lss\<close>.
\<close>

theorem classic_example_matches_brute_force:
  assumes "0 < depth"
  shows "map_option (map_sum id (map mset))
     (search_built_by_position depth lower False
        [ascii ''a'', ascii ''ab'', ascii ''bab'', ascii ''bc'', ascii ''bca'', ascii ''c'',
         ascii ''caa''] (ascii ''abccab''))
   = Some (Inr (map (\<lambda>i. mset (map Some
        (brute_force_at
           [ascii ''a'', ascii ''ab'', ascii ''bab'', ascii ''bc'', ascii ''bca'', ascii ''c'',
            ascii ''caa''] (ascii ''abccab'') i)))
        [0..<length (ascii ''abccab'')]))
   \<and> search_built depth lower False
        [ascii ''a'', ascii ''ab'', ascii ''bab'', ascii ''bc'', ascii ''bca'', ascii ''c'',
         ascii ''caa''] (ascii ''abccab'')
     = map_option (map_sum id concat)
         (search_built_by_position depth lower False
            [ascii ''a'', ascii ''ab'', ascii ''bab'', ascii ''bc'', ascii ''bca'', ascii ''c'',
             ascii ''caa''] (ascii ''abccab''))"
proof -
  have le: "Suc 0 \<le> depth" using assms by simp
  note bp = search_built_by_position_mono[OF classic_by_position le]
  note fl = search_built_mono[OF classic_flat le]
  have len: "length (ascii ''abccab'') = 6" by (simp add: ascii_def)
  have split: "map (\<lambda>i. mset (map Some (f i))) [0..<n]
               = map (\<lambda>xs. mset (map Some xs)) (map f [0..<n])"
    for f :: "nat \<Rightarrow> str list" and n
    by (simp add: comp_def)
  show ?thesis
    unfolding len split bp fl classic_brute_force by simp
qed

theorem classic_example_matches_brute_force_witness:
  "(0::nat) < 1000
   \<and> (map_option (map_sum id (map mset))
     (search_built_by_position 1000 ascii_lower False
        [ascii ''a'', ascii ''ab'', ascii ''bab'', ascii ''bc'', ascii ''bca'', ascii ''c'',
         ascii ''caa''] (ascii ''abccab''))
   = Some (Inr (map (\<lambda>i. mset (map Some
        (brute_force_at
           [ascii ''a'', ascii ''ab'', ascii ''bab'', ascii ''bc'', ascii ''bca'', ascii ''c'',
            ascii ''caa''] (ascii ''abccab'') i)))
        [0..<length (ascii ''abccab'')]))
   \<and> search_built 1000 ascii_lower False
        [ascii ''a'', ascii ''ab'', ascii ''bab'', ascii ''bc'', ascii ''bca'', ascii ''c'',
         ascii ''caa''] (ascii ''abccab'')
     = map_option (map_sum id concat)
         (search_built_by_position 1000 ascii_lower False
            [ascii ''a'', ascii ''ab'', ascii ''bab'', ascii ''bc'', ascii ''bca'', ascii ''c'',
             ascii ''caa''] (ascii ''abccab'')))"
proof -
  have h: "(0::nat) < 1000" by simp
  show ?thesis by (rule conjI[OF h classic_example_matches_brute_force[OF h]])
qed

subsection \<open>Case sensitivity\<close>

lemma case_example_value:
  "search_built_by_position (Suc 0) ascii_lower True [ascii ''Cat''] (ascii ''the cat sat'')
     = Some (Inr [[], [], [], [], [], [], [Some (ascii ''Cat'')], [], [], [], []])
   \<and> search_built (Suc 0) ascii_lower True [ascii ''Cat''] (ascii ''the cat sat'')
     = Some (Inr [Some (ascii ''Cat'')])
   \<and> search_built (Suc 0) ascii_lower False [ascii ''Cat''] (ascii ''the cat sat'')
     = Some (Inr [])"
  by code_simp

lemma ascii_lower_examples:
  "ascii_lower (ascii ''Cat'') = ascii ''cat''"
  "ascii_lower (ascii ''CAT'') = ascii ''cat''"
  "ascii_lower (ascii ''the cat sat'') = ascii ''the cat sat''"
  by code_simp+

text \<open>
  C5. With \<open>case_insensitive = True\<close> and the keyword Cat, the text "the cat sat" gives one
  report, the original form Cat, at the position where cat ends (index 6); with
  \<open>case_insensitive = False\<close> the same keyword and text give no report. Of \<open>str.lower\<close>
  this uses that it maps Cat to cat and leaves the text as it is.
\<close>

theorem case_sensitivity_example:
  assumes "0 < depth" "lower (ascii ''Cat'') = ascii ''cat''"
    "lower (ascii ''the cat sat'') = ascii ''the cat sat''"
  shows "search_built_by_position depth lower True [ascii ''Cat''] (ascii ''the cat sat'')
     = Some (Inr [[], [], [], [], [], [], [Some (ascii ''Cat'')], [], [], [], []])
   \<and> search_built depth lower True [ascii ''Cat''] (ascii ''the cat sat'')
     = Some (Inr [Some (ascii ''Cat'')])
   \<and> search_built depth lower False [ascii ''Cat''] (ascii ''the cat sat'')
     = Some (Inr [])"
proof -
  have le: "Suc 0 \<le> depth" using assms(1) by simp
  have k: "lower k = ascii_lower k" if "k \<in> set [ascii ''Cat'']" for k
    using that assms(2) ascii_lower_examples(1) by simp
  have t: "lower (ascii ''the cat sat'') = ascii_lower (ascii ''the cat sat'')"
    using assms(3) ascii_lower_examples(3) by simp
  note v = case_example_value
  have "search_built_by_position depth lower True [ascii ''Cat''] (ascii ''the cat sat'')
     = Some (Inr [[], [], [], [], [], [], [Some (ascii ''Cat'')], [], [], [], []])"
    by (rule trans[OF search_built_cong(2)[where lower = lower and lower' = ascii_lower, OF k t]
          search_built_by_position_mono[OF conjunct1[OF v] le]])
  moreover have "search_built depth lower True [ascii ''Cat''] (ascii ''the cat sat'')
     = Some (Inr [Some (ascii ''Cat'')])"
    by (rule trans[OF search_built_cong(1)[where lower = lower and lower' = ascii_lower, OF k t]
          search_built_mono[OF conjunct1[OF conjunct2[OF v]] le]])
  moreover have "search_built depth lower False [ascii ''Cat''] (ascii ''the cat sat'')
     = Some (Inr [])"
    by (rule trans[OF search_built_cong(1)[where lower = lower and lower' = ascii_lower, OF k t]
          search_built_mono[OF conjunct2[OF conjunct2[OF v]] le]])
  ultimately show ?thesis by (intro conjI)
qed

theorem case_sensitivity_example_witness:
  "(0::nat) < 1000 \<and> ascii_lower (ascii ''Cat'') = ascii ''cat''
   \<and> ascii_lower (ascii ''the cat sat'') = ascii ''the cat sat''
   \<and> search_built_by_position 1000 ascii_lower True [ascii ''Cat''] (ascii ''the cat sat'')
     = Some (Inr [[], [], [], [], [], [], [Some (ascii ''Cat'')], [], [], [], []])
   \<and> search_built 1000 ascii_lower True [ascii ''Cat''] (ascii ''the cat sat'')
     = Some (Inr [Some (ascii ''Cat'')])
   \<and> search_built 1000 ascii_lower False [ascii ''Cat''] (ascii ''the cat sat'')
     = Some (Inr [])"
proof -
  have h: "(0::nat) < 1000" by simp
  note a = ascii_lower_examples(1) ascii_lower_examples(3)
  show ?thesis
    by (intro conjI h a conjunct1[OF case_sensitivity_example[OF h a]]
          conjunct1[OF conjunct2[OF case_sensitivity_example[OF h a]]]
          conjunct2[OF conjunct2[OF case_sensitivity_example[OF h a]]])
qed

subsection \<open>General properties\<close>

lemma terminal_keyword:
  assumes fi: "finalized_inv lower ci ks P T" and n: "n < counter T" "success (state_at T n)"
  obtains k where "k \<in> set ks" "normal_form lower ci k \<noteq> []" "keyword_at T n = Some k"
    "normal_form lower ci k = P n" "k = last (matching lower ci ks (P n))"
proof -
  have te: "terminals lower ci ks P T" using fi by (simp add: finalized_inv_def)
  have ne: "matching lower ci ks (P n) \<noteq> []"
    and kw: "keyword_at T n = Some (last (matching lower ci ks (P n)))"
    using te n unfolding terminals_def by auto
  have "last (matching lower ci ks (P n)) \<in> set (matching lower ci ks (P n))"
    using ne by simp
  then have "last (matching lower ci ks (P n)) \<in> set ks"
    "normal_form lower ci (last (matching lower ci ks (P n))) \<noteq> []"
    "normal_form lower ci (last (matching lower ci ks (P n))) = P n"
    unfolding matching_def by auto
  then show ?thesis using that kw by blast
qed

lemma search_built_scan:
  assumes b: "build depth lower ci ks = Some (Inr (), T)"
  obtains P nss where "finalized_inv lower ci ks P T"
    "scan_result P T 0 [] (normal_form lower ci tx) nss"
    "search_all lower T tx = Some (Inr (concat (map (map (keyword_at T)) nss)))"
    "search_all_by_position lower T tx = Some (Inr (map (map (keyword_at T)) nss))"
proof -
  obtain P where fi: "finalized_inv lower ci ks P T" using build_success[OF b] by blast
  have inv: "fin_inv P {..<counter T} T" and fin: "finalized T"
    and ci: "case_insensitive T = ci"
    using fi by (simp_all add: finalized_inv_def)
  note sk = fin_invD(1)[OF inv]
  have z: "zero_state T = 0" "0 < counter T" "P 0 = []" using skeleton_root[OF sk] by auto
  have "suffix (P 0) []" using z(3) by simp
  then obtain nss where nss: "scan_result P T 0 [] (normal_form lower ci tx) nss"
    using scan_correct[OF inv z(2)] by blast
  have g: "search_groups T 0 (normal_form lower ci tx)
             = Some (Inr (map (map (keyword_at T)) nss))"
    and l: "search_loop T 0 (normal_form lower ci tx) [] =
              Some (Inr ([] @ concat (map (map (keyword_at T)) nss)))"
    using nss unfolding scan_result_def by blast+
  have s1: "search_all lower T tx = Some (Inr (concat (map (map (keyword_at T)) nss)))"
    using l fin ci z(1) by (simp add: search_all_def normal_form_def)
  have s2: "search_all_by_position lower T tx = Some (Inr (map (map (keyword_at T)) nss))"
    using g fin ci z(1) by (simp add: search_all_by_position_def normal_form_def)
  show ?thesis using that[OF fi nss s1 s2] .
qed

lemma scan_resultD:
  assumes "scan_result P T cur pre tx nss"
  shows "length nss = length tx"
    "\<And>i n. i < length tx \<Longrightarrow> n \<in> set (nss ! i) \<Longrightarrow>
           n < counter T \<and> n \<noteq> 0 \<and> success (state_at T n)
           \<and> suffix (P n) (pre @ take (Suc i) tx)"
    "\<And>i. i < length tx \<Longrightarrow> sorted_wrt (\<lambda>a b. length (P b) < length (P a)) (nss ! i)"
  using assms unfolding scan_result_def by blast+

lemma search_built_success:
  assumes "build depth lower ci ks = Some (Inr (), T)"
  shows "search_built depth lower ci ks tx = search_all lower T tx"
    "search_built_by_position depth lower ci ks tx = search_all_by_position lower T tx"
  using assms by (simp_all add: search_built_def search_built_by_position_def)

text \<open>
  C9. For every trie built by a sequence of \<open>add\<close> calls, \<open>finalize\<close> ends (a run that
  does not end is \<open>None\<close>): the walk along the suffix links, the recursive resolution of the
  links not yet computed and the loop over the worklist all end. It ends by returning, with
  the tree finalized, or by the \<open>RecursionError\<close> of the interpreter, with the tree left
  not finalized, and by nothing else; and it returns whenever the recursion limit admits as
  many nested calls of \<open>search_lss\<close> as the longest keyword has code points in the form the
  tree stores, because every nested call is for a strictly shorter word.
\<close>

theorem finalize_terminates:
  "\<exists>r T. finalize depth (built lower ci ks) = Some (r, T)
     \<and> (r = Inr () \<and> finalized T \<or> r = Inl RecursionError \<and> \<not> finalized T)
     \<and> ((\<forall>k\<in>set ks. length (normal_form lower ci k) \<le> depth) \<longrightarrow> r = Inr ())"
proof -
  from build_correct[of depth lower ci ks] show ?thesis
  proof (elim disjE exE conjE bexE)
    fix T k
    assume e: "build depth lower ci ks = Some (Inl RecursionError, T)" "\<not> finalized T"
      "k \<in> set ks" "depth < length (normal_form lower ci k)"
    have "\<not> (\<forall>k\<in>set ks. length (normal_form lower ci k) \<le> depth)"
      using e(3,4) by (auto simp: not_le)
    then show ?thesis using e(1,2) unfolding build_eq by blast
  next
    fix T P
    assume e: "build depth lower ci ks = Some (Inr (), T)" "finalized_inv lower ci ks P T"
    have "finalized T" using e(2) by (simp add: finalized_inv_def)
    then show ?thesis using e(1) unfolding build_eq by blast
  qed
qed

text \<open>
  The two ways \<open>finalize\<close> ends, on the keywords bc and abc: the state of abc is reached
  first, its suffix target bc is not yet resolved, and the call for it nests inside. A limit
  that admits one call raises; one that admits two returns.
\<close>

lemma finalize_two_outcomes:
  "(case finalize (Suc 0) (built lower False [ascii ''bc'', ascii ''abc'']) of
      Some (Inl RecursionError, T) \<Rightarrow> \<not> finalized T | _ \<Rightarrow> False)
   \<and> (case finalize (Suc (Suc 0)) (built lower False [ascii ''bc'', ascii ''abc'']) of
      Some (Inr _, T) \<Rightarrow> finalized T | _ \<Rightarrow> False)"
  by code_simp

theorem finalize_terminates_witness:
  "\<exists>T. finalize 1000 (built ascii_lower True [ascii ''Cat'', ascii ''CAT''])
          = Some (Inr (), T) \<and> finalized T"
proof -
  let ?ks = "[ascii ''Cat'', ascii ''CAT'']"
  have h: "\<forall>k\<in>set ?ks. length (normal_form ascii_lower True k) \<le> 1000"
    by (simp add: normal_form_def ascii_lower_def ascii_def)
  obtain r T where r: "finalize 1000 (built ascii_lower True ?ks) = Some (r, T)"
    "r = Inr () \<and> finalized T \<or> r = Inl RecursionError \<and> \<not> finalized T"
    "(\<forall>k\<in>set ?ks. length (normal_form ascii_lower True k) \<le> 1000) \<longrightarrow> r = Inr ()"
    using finalize_terminates[of 1000 ascii_lower True ?ks]
    by (elim exE conjE) (rule that, assumption+)
  have "r = Inr ()" using r(3) h by (rule mp)
  moreover from this have "finalized T" using r(2) by simp
  ultimately show ?thesis using r(1) by (intro exI[of _ T] conjI) simp_all
qed

lemma built_snoc2:
  "built lower ci (ks @ [k1, k2]) = snd (add lower (snd (add lower (built lower ci ks) k1)) k2)"
  using built_snoc[of lower ci "ks @ [k1]" k2] built_snoc[of lower ci ks k1] by simp

lemma built_same_normal_form:
  assumes "normal_form lower ci k1 = normal_form lower ci k2"
  shows "built lower ci (ks @ [k1, k2]) = built lower ci (ks @ [k2])"
proof -
  obtain P where "built_inv lower ci ks P (built lower ci ks)" using built_invariant by blast
  from add_add_same_normal_form[OF this assms] show ?thesis
    unfolding built_snoc2 built_snoc .
qed

lemma search_all_total:
  assumes fi: "finalized_inv lower ci ks P T"
  shows "\<exists>r. search_all lower T line = Some (Inr r)"
proof -
  have inv: "fin_inv P {..<counter T} T" and fin: "finalized T"
    using fi by (simp_all add: finalized_inv_def)
  note sk = fin_invD(1)[OF inv]
  have z: "zero_state T = 0" "0 < counter T" "P 0 = []" using skeleton_root[OF sk] by auto
  have s: "suffix (P 0) []" using z(3) by simp
  obtain nss where "scan_result P T 0 []
      (if case_insensitive T then lower line else line) nss"
    using scan_correct[OF inv z(2) s] by blast
  then have "search_loop T 0 (if case_insensitive T then lower line else line) []
      = Some (Inr ([] @ concat (map (map (keyword_at T)) nss)))"
    unfolding scan_result_def by blast
  then show ?thesis using fin z(1) by (simp add: search_all_def)
qed

text \<open>
  The search on the automaton of a list of keywords ends: with a list of reports when
  \<open>finalize\<close> has returned, with the \<open>RecursionError\<close> of \<open>finalize\<close> otherwise.
\<close>

lemma search_built_outcome:
  "(\<exists>r. search_built depth lower ci ks tx = Some (Inr r))
   \<or> (search_built depth lower ci ks tx = Some (Inl RecursionError)
       \<and> (\<exists>k\<in>set ks. depth < length (normal_form lower ci k)))"
proof -
  from build_correct[of depth lower ci ks] show ?thesis
  proof (elim disjE exE conjE)
    fix T
    assume "build depth lower ci ks = Some (Inl RecursionError, T)"
      "\<exists>k\<in>set ks. depth < length (normal_form lower ci k)"
    then show ?thesis by (simp add: search_built_def)
  next
    fix T P
    assume e: "build depth lower ci ks = Some (Inr (), T)" "finalized_inv lower ci ks P T"
    show ?thesis
      using search_all_total[OF e(2), of tx] search_built_success(1)[OF e(1), of tx] by simp
  qed
qed

text \<open>
  C7. For every automaton in the build phase (a new tree and the keywords \<open>ks\<close> added to
  it), every keyword \<open>k\<close> and every text: adding \<open>k\<close> twice and finalizing gives the same
  automaton, and the same outcome of \<open>search_all\<close>, as adding it once and finalizing. That
  outcome exists (the run ends), and it is a list of reports whenever the recursion limit
  admits as many nested calls as the longest keyword has code points.
\<close>

theorem double_insertion_idempotent:
  "build depth lower ci (ks @ [k, k]) = build depth lower ci (ks @ [k])
   \<and> search_built depth lower ci (ks @ [k, k]) tx = search_built depth lower ci (ks @ [k]) tx
   \<and> (\<exists>r. search_built depth lower ci (ks @ [k]) tx = Some r)
   \<and> ((\<forall>k'\<in>set (ks @ [k]). length (normal_form lower ci k') \<le> depth)
        \<longrightarrow> (\<exists>r. search_built depth lower ci (ks @ [k]) tx = Some (Inr r)))"
proof -
  have b: "build depth lower ci (ks @ [k, k]) = build depth lower ci (ks @ [k])"
    unfolding build_eq using built_same_normal_form[OF refl, of lower ci ks k] by simp
  then have s: "search_built depth lower ci (ks @ [k, k]) tx
                = search_built depth lower ci (ks @ [k]) tx"
    by (simp add: search_built_def)
  note oc = search_built_outcome[of depth lower ci "ks @ [k]" tx]
  have e: "\<exists>r. search_built depth lower ci (ks @ [k]) tx = Some r" using oc by blast
  have f: "\<exists>r. search_built depth lower ci (ks @ [k]) tx = Some (Inr r)"
    if "\<forall>k'\<in>set (ks @ [k]). length (normal_form lower ci k') \<le> depth"
    using oc that by (auto simp: not_less[symmetric])
  show ?thesis using b s e f by blast
qed

theorem double_insertion_idempotent_witness:
  "search_built 1000 ascii_lower False [ascii ''a'', ascii ''ab'', ascii ''ab''] (ascii ''cab'')
     = search_built 1000 ascii_lower False [ascii ''a'', ascii ''ab''] (ascii ''cab'')
   \<and> search_built 1000 ascii_lower False [ascii ''a'', ascii ''ab''] (ascii ''cab'')
     = Some (Inr [Some (ascii ''a''), Some (ascii ''ab'')])"
proof -
  have h: "\<forall>k'\<in>set ([ascii ''a''] @ [ascii ''ab'']).
             length (normal_form ascii_lower False k') \<le> 1000"
    by (simp add: normal_form_def ascii_def)
  note t = double_insertion_idempotent[of 1000 ascii_lower False "[ascii ''a'']" "ascii ''ab''"
      "ascii ''cab''"]
  have eq: "search_built 1000 ascii_lower False ([ascii ''a''] @ [ascii ''ab'', ascii ''ab''])
              (ascii ''cab'')
            = search_built 1000 ascii_lower False ([ascii ''a''] @ [ascii ''ab''])
                (ascii ''cab'')"
    using t by (elim conjE)
  have "\<exists>r. search_built 1000 ascii_lower False ([ascii ''a''] @ [ascii ''ab''])
              (ascii ''cab'') = Some (Inr r)"
    using t h by (elim conjE) (erule mp)
  have v: "search_built (Suc 0) ascii_lower False [ascii ''a'', ascii ''ab''] (ascii ''cab'')
             = Some (Inr [Some (ascii ''a''), Some (ascii ''ab'')])"
    by code_simp
  have "search_built 1000 ascii_lower False [ascii ''a'', ascii ''ab''] (ascii ''cab'')
             = Some (Inr [Some (ascii ''a''), Some (ascii ''ab'')])"
    by (rule search_built_mono[OF v]) simp
  then show ?thesis using eq by simp
qed











text \<open>
  C3. On a finalized tree \<open>add\<close> and \<open>finalize\<close> raise the \<open>ValueError\<close> of the phase
  violation and leave the tree as it is; on a tree that is not finalized \<open>search_all\<close>
  raises it (and \<open>search_all\<close> never writes to the tree); a \<open>finalize\<close> that returns
  leaves the tree finalized, so a second \<open>finalize\<close> raises.
\<close>

theorem phase_violations:
  "(finalized T \<longrightarrow>
      add lower T k
        = (Inl (ValueError ''KeywordTree has been finalized. No more keyword additions allowed''), T)
      \<and> finalize depth T = Some (Inl (ValueError ''KeywordTree has already been finalized.''), T))
   \<and> (\<not> finalized T \<longrightarrow>
      search_all lower T tx = Some (Inl (ValueError
        ''KeywordTree has not been finalized. No search allowed. Call finalize() first.'')))
   \<and> (finalize depth T = Some (Inr (), T') \<longrightarrow> finalized T')"
proof -
  have "finalized T'" if fz: "finalize depth T = Some (Inr (), T')"
  proof (cases "finalized T")
    case True
    then show ?thesis using fz by (simp add: finalize_def)
  next
    case False
    define X where "X = search_lss_for_children depth
       (update_state T (zero_state T) (\<lambda>s. s\<lparr>longest_strict_suffix := Some (zero_state T)\<rparr>))
       (zero_state T)"
    have e: "Option.bind X (\<lambda>(r, T2). case r of
                  Inl e \<Rightarrow> Some (Inl e, T2)
                | Inr _ \<Rightarrow> Some (Inr (), T2\<lparr>finalized := True\<rparr>)) = Some (Inr (), T')"
      using fz False by (simp add: finalize_def Let_def X_def)
    show ?thesis
    proof (cases X)
      case None
      then show ?thesis using e by simp
    next
      case (Some p)
      obtain r T2 where p: "p = (r, T2)" by (cases p)
      show ?thesis using e Some p by (cases r) auto
    qed
  qed
  then show ?thesis by (simp add: add_def finalize_def search_all_def)
qed

lemma init_finalize:
  "(case finalize 0 (KeywordTree_init False) of Some (Inr _, T) \<Rightarrow> True | _ \<Rightarrow> False)"
  by code_simp

theorem phase_violations_witness:
  "\<exists>T'. finalize 1000 (KeywordTree_init False) = Some (Inr (), T') \<and> finalized T'
     \<and> add ascii_lower T' (ascii ''abc'')
         = (Inl (ValueError ''KeywordTree has been finalized. No more keyword additions allowed''), T')
     \<and> finalize 1000 T' = Some (Inl (ValueError ''KeywordTree has already been finalized.''), T')
     \<and> search_all ascii_lower (KeywordTree_init False) (ascii ''abc'') = Some (Inl (ValueError
        ''KeywordTree has not been finalized. No search allowed. Call finalize() first.''))"
proof -
  obtain r T' where ft: "finalize 0 (KeywordTree_init False) = Some (r, T')"
    using init_finalize by (cases "finalize 0 (KeywordTree_init False)") auto
  have "r = Inr ()" using init_finalize unfolding ft by (cases r) auto
  then have f0: "finalize 0 (KeywordTree_init False) = Some (Inr (), T')" using ft by simp
  have f: "finalize 1000 (KeywordTree_init False) = Some (Inr (), T')"
    by (rule finalize_mono[OF f0]) simp
  have nf: "\<not> finalized (KeywordTree_init False)" by (simp add: KeywordTree_init_def)
  note p1 = phase_violations[of "KeywordTree_init False" ascii_lower "ascii ''abc''" 1000
      "ascii ''abc''" T']
  have fin: "finalized T'" using p1 f by simp
  note p2 = phase_violations[of T' ascii_lower "ascii ''abc''" 1000 "ascii ''abc''" T']
  show ?thesis using p1 p2 f nf fin by (intro exI[of _ T']) simp
qed

lemma follow_update_payload:
  "follow (update_state T n (\<lambda>s. s\<lparr>success := b, matched_keyword := m\<rparr>)) a v = follow T a v"
  by (induction v arbitrary: a) (auto split: option.splits)

lemma add_terminal:
  assumes inv: "built_inv lower ci ks P T" and k: "normal_form lower ci k \<noteq> []"
  shows "\<exists>n. follow (snd (add lower T k)) 0 (normal_form lower ci k) = Some n
           \<and> success (state_at (snd (add lower T k)) n)
           \<and> keyword_at (snd (add lower T k)) n = Some k"
proof -
  have nf: "\<not> finalized T" and ci: "case_insensitive T = ci"
    and sk: "skeleton P T" and un: "unresolved T"
    using inv by (simp_all add: built_inv_def)
  let ?w = "normal_form lower ci k"
  obtain T1 n where run: "add_chars T (zero_state T) ?w = (T1, n)" by fastforce
  have z: "zero_state T = 0" "0 < counter T" using skeleton_root[OF sk] by auto
  obtain P1 where P1: "follow T1 0 ?w = Some n"
    using add_chars_props[OF sk un _ run[unfolded z(1)]] z by auto
  have r: "add lower T k
           = (Inr (), update_state T1 n (\<lambda>s. s\<lparr>success := True, matched_keyword := Some k\<rparr>))"
    using add_result[OF nf _ run[unfolded ci[symmetric]]] k ci by simp
  show ?thesis unfolding r using P1 by (simp add: follow_update_payload)
qed

lemma add_existing:
  assumes inv: "built_inv lower ci ks P T" and k: "normal_form lower ci k \<noteq> []"
    and f: "follow T 0 (normal_form lower ci k) = Some n"
  shows "snd (add lower T k)
         = update_state T n (\<lambda>s. s\<lparr>success := True, matched_keyword := Some k\<rparr>)"
proof -
  have nf: "\<not> finalized T" and ci: "case_insensitive T = ci" and sk: "skeleton P T"
    using inv by (simp_all add: built_inv_def)
  have z: "zero_state T = 0" using skeleton_root(1)[OF sk] .
  have "add_chars T (zero_state T) (normal_form lower (case_insensitive T) k) = (T, n)"
    using add_chars_existing[OF f] z ci by simp
  from add_result[OF nf _ this] show ?thesis using k ci by simp
qed

text \<open>
  C10. In a case-insensitive automaton, two keywords that differ only in letter case (they
  have the same lower-case form, and it is not empty), added one after the other, end in
  the same terminal state; the second \<open>add\<close> overwrites the text stored there, and once
  \<open>finalize\<close> has returned, \<open>search_all\<close> returns a list in which every report that is a
  case variant of the keyword is the text added last.
\<close>

theorem later_case_variant_overwrites:
  assumes "lower k1 = lower k2" "lower k1 \<noteq> []"
  shows "(\<exists>n. follow (built lower True (ks @ [k1])) 0 (lower k1) = Some n
            \<and> keyword_at (built lower True (ks @ [k1])) n = Some k1
            \<and> follow (built lower True (ks @ [k1, k2])) 0 (lower k2) = Some n
            \<and> success (state_at (built lower True (ks @ [k1, k2])) n)
            \<and> keyword_at (built lower True (ks @ [k1, k2])) n = Some k2)
     \<and> (\<forall>T. build depth lower True (ks @ [k1, k2]) = Some (Inr (), T) \<longrightarrow>
           (\<exists>r. search_all lower T tx = Some (Inr r)
              \<and> (\<forall>k. Some k \<in> set r \<and> lower k = lower k2 \<longrightarrow> k = k2)))"
proof -
  have nl: "normal_form lower True k = lower k" for k by (simp add: normal_form_def)
  have k1: "normal_form lower True k1 \<noteq> []" and k2: "normal_form lower True k2 \<noteq> []"
    using assms by (simp_all add: nl)
  obtain P where bi: "built_inv lower True ks P (built lower True ks)"
    using built_invariant by blast
  obtain P1 where bi1: "built_inv lower True (ks @ [k1]) P1 (built lower True (ks @ [k1]))"
    using built_invariant by blast
  let ?T1 = "built lower True (ks @ [k1])" and ?T2 = "built lower True (ks @ [k1, k2])"
  obtain n where n: "follow ?T1 0 (lower k1) = Some n" "keyword_at ?T1 n = Some k1"
    using add_terminal[OF bi k1] unfolding built_snoc[symmetric] nl by blast
  have "follow ?T1 0 (normal_form lower True k2) = Some n" using n(1) assms(1) nl by simp
  from add_existing[OF bi1 k2 this]
  have T2: "?T2 = update_state ?T1 n (\<lambda>s. s\<lparr>success := True, matched_keyword := Some k2\<rparr>)"
    using built_snoc[of lower True "ks @ [k1]" k2] by simp
  have a: "follow ?T2 0 (lower k2) = Some n" "success (state_at ?T2 n)"
    "keyword_at ?T2 n = Some k2"
    unfolding T2 using n(1) assms(1) by (simp_all add: follow_update_payload)
  let ?ks = "ks @ [k1, k2]"
  have c: "\<exists>r. search_all lower T tx = Some (Inr r)
              \<and> (\<forall>k. Some k \<in> set r \<and> lower k = lower k2 \<longrightarrow> k = k2)"
    if b: "build depth lower True ?ks = Some (Inr (), T)" for T
  proof -
    obtain Q nss where r: "finalized_inv lower True ?ks Q T"
      "scan_result Q T 0 [] (normal_form lower True tx) nss"
      "search_all lower T tx = Some (Inr (concat (map (map (keyword_at T)) nss)))"
      using search_built_scan[OF b, of tx] by metis
    note sr = scan_resultD[OF r(2)]
    have "k = k2" if kin: "Some k \<in> set (concat (map (map (keyword_at T)) nss))"
      and kl: "lower k = lower k2" for k
    proof -
      obtain ns m where m: "ns \<in> set nss" "m \<in> set ns" "keyword_at T m = Some k"
        using kin by auto
      obtain i where i: "i < length nss" "nss ! i = ns"
        using m(1) by (auto simp: in_set_conv_nth)
      have il: "i < length (normal_form lower True tx)" using i(1) sr(1) by simp
      have p: "m < counter T" "success (state_at T m)"
        using sr(2)[OF il, of m] m(2) i(2) by auto
      obtain k' where k': "keyword_at T m = Some k'" "normal_form lower True k' = Q m"
        "k' = last (matching lower True ?ks (Q m))"
        using terminal_keyword[OF r(1) p] by metis
      have "k' = k" using k'(1) m(3) by simp
      then have "Q m = lower k2" using k'(2) kl nl by simp
      then have "matching lower True ?ks (Q m) = matching lower True (ks @ [k1]) (Q m) @ [k2]"
        using k2 matching_snoc[of lower True "ks @ [k1]" k2 "Q m"] nl by simp
      then show ?thesis using k'(3) \<open>k' = k\<close> by simp
    qed
    then show ?thesis using r(3) by blast
  qed
  show ?thesis using n a c by blast
qed

lemma case_variant_value:
  "search_built (Suc 0) ascii_lower True [ascii ''Cat'', ascii ''CAT''] (ascii ''the cat sat'')
   = Some (Inr [Some (ascii ''CAT'')])"
  by code_simp

theorem later_case_variant_overwrites_witness:
  "ascii_lower (ascii ''Cat'') = ascii_lower (ascii ''CAT'')
   \<and> ascii_lower (ascii ''Cat'') \<noteq> []
   \<and> (\<exists>T. build 1000 ascii_lower True [ascii ''Cat'', ascii ''CAT''] = Some (Inr (), T)
        \<and> search_all ascii_lower T (ascii ''the cat sat'') = Some (Inr [Some (ascii ''CAT'')]))
   \<and> Some (ascii ''Cat'') \<notin> set [Some (ascii ''CAT'')]"
proof -
  let ?ks = "[ascii ''Cat'', ascii ''CAT'']"
  have h: "ascii_lower (ascii ''Cat'') = ascii_lower (ascii ''CAT'')"
    "ascii_lower (ascii ''Cat'') \<noteq> []"
    by (simp_all add: ascii_lower_examples) (simp add: ascii_def)
  have "length (normal_form ascii_lower True k) \<le> 1000" if "k \<in> set ?ks" for k
    using that by (auto simp: normal_form_def ascii_lower_def ascii_def)
  then obtain T P where b: "build 1000 ascii_lower True ?ks = Some (Inr (), T)"
    using build_sufficient[of ?ks ascii_lower True 1000] by blast
  have b': "build 1000 ascii_lower True ([] @ ?ks) = Some (Inr (), T)" using b by simp
  obtain r where r: "search_all ascii_lower T (ascii ''the cat sat'') = Some (Inr r)"
    "\<forall>k. Some k \<in> set r \<and> ascii_lower k = ascii_lower (ascii ''CAT'') \<longrightarrow> k = ascii ''CAT''"
    using later_case_variant_overwrites[where lower = ascii_lower and ?k1.0 = "ascii ''Cat''"
        and ?k2.0 = "ascii ''CAT''" and ks = "[]" and depth = 1000
        and tx = "ascii ''the cat sat''", OF h] b'
    by blast
  have "search_built 1000 ascii_lower True ?ks (ascii ''the cat sat'')
          = Some (Inr [Some (ascii ''CAT'')])"
    by (rule search_built_mono[OF case_variant_value]) simp
  then have e: "r = [Some (ascii ''CAT'')]"
    using r(1) search_built_success(1)[OF b, of "ascii ''the cat sat''"] by simp
  have "ascii ''Cat'' \<noteq> ascii ''CAT''" by (simp add: ascii_def)
  then have "Some (ascii ''Cat'') \<notin> set r" using r(2) h(1) by blast
  then have n: "Some (ascii ''Cat'') \<notin> set [Some (ascii ''CAT'')]" unfolding e .
  have s: "search_all ascii_lower T (ascii ''the cat sat'') = Some (Inr [Some (ascii ''CAT'')])"
    using r(1) e by simp
  show ?thesis using h b s n by (intro conjI exI[of _ T])
qed

lemma filter_upt_Suc:
  "filter Q [0..<Suc n] = (if Q 0 then [0] else []) @ map Suc (filter (\<lambda>j. Q (Suc j)) [0..<n])"
proof -
  have "[0..<Suc n] = 0 # map Suc [0..<n]" by (simp add: upt_conv_Cons map_Suc_upt del: upt_Suc)
  then show ?thesis by (simp add: filter_map comp_def del: upt_Suc)
qed

lemma main_lines_correct:
  assumes "\<And>line. search_all lower T line = Some (Inr (res line))"
  shows "main_lines lower T connector kw i filelines ret =
     Some (Inr (ret @ map (\<lambda>j. Suc (i + j))
        (filter (\<lambda>j. combination connector kw (res (filelines ! j))) [0..<length filelines])))"
proof (induction filelines arbitrary: i ret)
  case Nil
  then show ?case by simp
next
  case (Cons line filelines)
  have f: "filter (\<lambda>j. combination connector kw (res ((line # filelines) ! j)))
             [0..<length (line # filelines)]
           = (if combination connector kw (res line) then [0] else [])
             @ map Suc (filter (\<lambda>j. combination connector kw (res (filelines ! j)))
                  [0..<length filelines])"
    using filter_upt_Suc[of "\<lambda>j. combination connector kw (res ((line # filelines) ! j))"
        "length filelines"] by simp
  have ih: "main_lines lower T connector kw (Suc i) filelines r =
     Some (Inr (r @ map (\<lambda>j. Suc (i + j)) (map Suc
        (filter (\<lambda>j. combination connector kw (res (filelines ! j))) [0..<length filelines]))))"
    for r
    using Cons.IH[of "Suc i" r] by (simp add: comp_def)
  show ?case
  proof (cases "connector = ascii ''and''")
    case True
    then have t: "(connector = ascii ''and'') = True" by simp
    have c: "list_all (\<lambda>elem. Some elem \<in> set r) kw = combination connector kw r" for r
      using True by (simp add: combination_def list_all_iff)
    show ?thesis unfolding f by (simp add: assms t c ih del: upt_Suc map_map)
  next
    case False
    then have t: "(connector = ascii ''and'') = False" by simp
    have c: "list_ex (\<lambda>elem. Some elem \<in> set r) kw = combination connector kw r" for r
      using False by (simp add: combination_def list_ex_iff)
    show ?thesis unfolding f by (simp add: assms t c ih del: upt_Suc map_map)
  qed
qed

text \<open>
  The other ways \<open>main\<close> ends on a command line that passes the guard: the exception of
  \<open>open\<close> or \<open>readlines\<close>, a \<open>ValueError\<close> among them replaced by
  \<open>ValueError('File error')\<close>.
\<close>

lemma main_file_error:
  assumes "6 \<le> length argv" "argv ! 2 \<in> set [ascii ''true'', ascii ''false'']"
    "argv ! 3 \<in> set [ascii ''and'', ascii ''or'']" "fs (argv ! 1) = Inl e"
  shows "main depth lower argv fs
         = Some (Inl (case e of ValueError m \<Rightarrow> ValueError ''File error'' | _ \<Rightarrow> e))"
  using assms unfolding main_def Let_def by (cases e) simp_all

text \<open>
  C2, amended. With fewer than six arguments \<open>main\<close> prints the usage text. For every
  command line of at least six arguments (a path, a case flag, a connector and at least two
  keywords) with a valid flag and connector, a file that can be read, and a recursion limit
  that admits as many nested calls of \<open>search_lss\<close> as the longest argument after the path
  has code points (in the form the tree stores), \<open>main\<close> constructs one automaton,
  case-insensitive exactly when the flag is false, to which the requested keywords are
  added; it calls \<open>search_all\<close> on every line and prints the 1-based numbers of exactly the
  lines whose result holds all of the requested keywords (and) or one of them (or).
\<close>

theorem main_reports_lines:
  "(length argv < 6 \<longrightarrow> main depth lower argv fs = Some (Inr Readme))
   \<and> (6 \<le> length argv \<and> argv ! 2 \<in> set [ascii ''true'', ascii ''false'']
        \<and> argv ! 3 \<in> set [ascii ''and'', ascii ''or''] \<and> fs (argv ! 1) = Inr filelines
        \<and> (\<forall>a\<in>set (drop 2 argv).
              length (normal_form lower (argv ! 2 = ascii ''false'') a) \<le> depth)
      \<longrightarrow> (\<exists>T extra res.
           build depth lower (argv ! 2 = ascii ''false'') (extra @ drop 4 argv)
             = Some (Inr (), T)
         \<and> (\<forall>line. search_all lower T line = Some (Inr (res line)))
         \<and> main depth lower argv fs = Some (Inr (Line_numbers (map Suc
               (filter (\<lambda>i. combination (argv ! 3) (drop 4 argv) (res (filelines ! i)))
                  [0..<length filelines]))))))"
proof (intro conjI impI)
  assume "length argv < 6"
  then show "main depth lower argv fs = Some (Inr Readme)" by (simp add: main_def)
next
  assume h: "6 \<le> length argv \<and> argv ! 2 \<in> set [ascii ''true'', ascii ''false'']
        \<and> argv ! 3 \<in> set [ascii ''and'', ascii ''or''] \<and> fs (argv ! 1) = Inr filelines
        \<and> (\<forall>a\<in>set (drop 2 argv).
              length (normal_form lower (argv ! 2 = ascii ''false'') a) \<le> depth)"
  then have a: "6 \<le> length argv" "argv ! 2 \<in> set [ascii ''true'', ascii ''false'']"
    "argv ! 3 \<in> set [ascii ''and'', ascii ''or'']" "fs (argv ! 1) = Inr filelines"
    and len: "\<And>k. k \<in> set (drop 2 argv) \<Longrightarrow>
                length (normal_form lower (argv ! 2 = ascii ''false'') k) \<le> depth"
    by blast+
  let ?ci = "argv ! 2 = ascii ''false''"
  let ?extra = "[argv ! 2, argv ! 3]"
  have d: "drop 2 argv = ?extra @ drop 4 argv"
  proof -
    have "drop 2 argv = argv ! 2 # drop 3 argv"
      using a(1) Cons_nth_drop_Suc[of 2 argv] by (simp add: numeral_3_eq_3 numeral_2_eq_2)
    moreover have "drop 3 argv = argv ! 3 # drop 4 argv"
      using a(1) Cons_nth_drop_Suc[of 3 argv] by (simp add: eval_nat_numeral)
    ultimately show ?thesis by simp
  qed
  obtain T P where b: "build depth lower ?ci (?extra @ drop 4 argv) = Some (Inr (), T)"
    "finalized_inv lower ?ci (?extra @ drop 4 argv) P T"
    using build_sufficient[of "?extra @ drop 4 argv" lower ?ci depth] len unfolding d by blast
  define res where "res line = (case search_all lower T line of Some (Inr r) \<Rightarrow> r | _ \<Rightarrow> [])"
    for line
  have res: "search_all lower T line = Some (Inr (res line))" for line
    using search_all_total[OF b(2), of line] unfolding res_def by auto
  have init: "(if ?ci then KeywordTree_init True else KeywordTree_init False)
              = KeywordTree_init ?ci"
    by simp
  have ok: "fst (add_all lower (KeywordTree_init ?ci) (drop 2 argv)) = Inr ()"
    by (rule add_all_init_ok)
  obtain T1 where T1: "add_all lower (KeywordTree_init ?ci) (drop 2 argv) = (Inr (), T1)"
    using ok by (cases "add_all lower (KeywordTree_init ?ci) (drop 2 argv)") auto
  have fz: "finalize depth T1 = Some (Inr (), T)"
    using b(1) T1 unfolding build_def d by simp
  have ml: "main_lines lower T (argv ! 3) (drop 4 argv) 0 filelines [] =
      Some (Inr (map Suc
        (filter (\<lambda>i. combination (argv ! 3) (drop 4 argv) (res (filelines ! i)))
           [0..<length filelines])))"
    using main_lines_correct[of lower T res "argv ! 3" "drop 4 argv" 0 filelines "[]", OF res]
    by simp
  have "main depth lower argv fs = Some (Inr (Line_numbers (map Suc
               (filter (\<lambda>i. combination (argv ! 3) (drop 4 argv) (res (filelines ! i)))
                  [0..<length filelines]))))"
    using a T1 fz ml unfolding main_def Let_def init by simp
  then show "\<exists>T extra res.
           build depth lower (argv ! 2 = ascii ''false'') (extra @ drop 4 argv)
             = Some (Inr (), T)
         \<and> (\<forall>line. search_all lower T line = Some (Inr (res line)))
         \<and> main depth lower argv fs = Some (Inr (Line_numbers (map Suc
               (filter (\<lambda>i. combination (argv ! 3) (drop 4 argv) (res (filelines ! i)))
                  [0..<length filelines]))))"
    using b(1) res by blast
qed

lemma main_mono:
  assumes "main depth lower argv fs = Some (Inr out)" "depth \<le> depth'"
  shows "main depth' lower argv fs = Some (Inr out)"
proof (cases "length argv < 6 \<or> argv ! 2 \<notin> set [ascii ''true'', ascii ''false'']
                \<or> argv ! 3 \<notin> set [ascii ''and'', ascii ''or'']")
  case True
  then have "main d lower argv fs = Some (Inr Readme)" for d
    unfolding main_def Let_def by (elim disjE) simp_all
  then show ?thesis using assms(1) by simp
next
  case False
  obtain filelines where fl: "fs (argv ! 1) = Inr filelines"
    using assms(1) False unfolding main_def Let_def
    by (cases "fs (argv ! 1)") (auto split: error.splits)
  let ?T0 = "if argv ! 2 = ascii ''false'' then KeywordTree_init True else KeywordTree_init False"
  obtain r1 T1 where a: "add_all lower ?T0 (drop 2 argv) = (r1, T1)" by fastforce
  have r1: "r1 = Inr ()"
    using assms(1) False fl a unfolding main_def Let_def by (cases r1) auto
  obtain r2 T2 where f: "finalize depth T1 = Some (r2, T2)"
    using assms(1) False fl a r1 unfolding main_def Let_def
    by (auto split: Option.bind_splits)
  have r2: "r2 = Inr ()"
    using assms(1) False fl a r1 f unfolding main_def Let_def by (cases r2) auto
  have "finalize depth' T1 = Some (Inr (), T2)"
    using finalize_mono[OF _ assms(2)] f r2 by simp
  then show ?thesis
    using assms(1) False fl a r1 f r2 unfolding main_def Let_def by simp
qed

lemma one_keyword_value:
  "search_built (Suc 0) ascii_lower False [ascii ''x''] (ascii ''x'')
   = Some (Inr [Some (ascii ''x'')])"
  by code_simp

text \<open>
  C2 fails as stated. With one keyword the command line has five arguments, and \<open>main\<close>
  prints the usage text and no line number, although the automaton of that keyword reports
  it on the first line of the file.
\<close>

theorem main_one_keyword_prints_usage:
  "main 1000 ascii_lower
     [ascii ''keywordtree.py'', ascii ''f'', ascii ''true'', ascii ''and'', ascii ''x'']
     (one_file (ascii ''f'') [ascii ''x'']) = Some (Inr Readme)
   \<and> search_built 1000 ascii_lower False [ascii ''x''] (ascii ''x'')
     = Some (Inr [Some (ascii ''x'')])"
proof -
  have "main 1000 ascii_lower
     [ascii ''keywordtree.py'', ascii ''f'', ascii ''true'', ascii ''and'', ascii ''x'']
     (one_file (ascii ''f'') [ascii ''x'']) = Some (Inr Readme)"
    by (simp add: main_def)
  moreover have "search_built 1000 ascii_lower False [ascii ''x''] (ascii ''x'')
     = Some (Inr [Some (ascii ''x'')])"
    by (rule search_built_mono[OF one_keyword_value]) simp
  ultimately show ?thesis by (rule conjI)
qed

lemma main_example_value:
  "main (Suc 0) ascii_lower
     [ascii ''keywordtree.py'', ascii ''f'', ascii ''true'', ascii ''and'', ascii ''x'',
      ascii ''y'']
     (one_file (ascii ''f'') [ascii ''x'', ascii ''xy'', ascii ''y x''])
   = Some (Inr (Line_numbers [2, 3]))"
  by code_simp

theorem main_reports_lines_witness:
  "main 1000 ascii_lower
     [ascii ''keywordtree.py'', ascii ''f'', ascii ''true'', ascii ''and'', ascii ''x'']
     (one_file (ascii ''f'') [ascii ''x'']) = Some (Inr Readme)
   \<and> 6 \<le> length [ascii ''keywordtree.py'', ascii ''f'', ascii ''true'', ascii ''and'',
                  ascii ''x'', ascii ''y'']
   \<and> one_file (ascii ''f'') [ascii ''x'', ascii ''xy'', ascii ''y x'']
        ([ascii ''keywordtree.py'', ascii ''f'', ascii ''true'', ascii ''and'', ascii ''x'',
          ascii ''y''] ! 1) = Inr [ascii ''x'', ascii ''xy'', ascii ''y x'']
   \<and> (\<exists>res. main 1000 ascii_lower
                [ascii ''keywordtree.py'', ascii ''f'', ascii ''true'', ascii ''and'',
                 ascii ''x'', ascii ''y'']
                (one_file (ascii ''f'') [ascii ''x'', ascii ''xy'', ascii ''y x''])
             = Some (Inr (Line_numbers (map Suc
                 (filter (\<lambda>i. combination (ascii ''and'') [ascii ''x'', ascii ''y'']
                               (res ([ascii ''x'', ascii ''xy'', ascii ''y x''] ! i)))
                    [0..<3]))))
          \<and> map Suc (filter (\<lambda>i. combination (ascii ''and'') [ascii ''x'', ascii ''y'']
                               (res ([ascii ''x'', ascii ''xy'', ascii ''y x''] ! i)))
                    [0..<3]) = [2, 3])"
proof -
  let ?argv5 = "[ascii ''keywordtree.py'', ascii ''f'', ascii ''true'', ascii ''and'',
      ascii ''x'']"
  let ?argv = "[ascii ''keywordtree.py'', ascii ''f'', ascii ''true'', ascii ''and'',
      ascii ''x'', ascii ''y'']"
  let ?L = "[ascii ''x'', ascii ''xy'', ascii ''y x'']"
  let ?fs = "one_file (ascii ''f'') ?L"
  have u: "main 1000 ascii_lower ?argv5 (one_file (ascii ''f'') [ascii ''x''])
             = Some (Inr Readme)"
    using main_reports_lines[where argv = ?argv5 and depth = 1000 and lower = ascii_lower
        and fs = "one_file (ascii ''f'') [ascii ''x'']"]
    by simp
  have h1: "6 \<le> length ?argv" by simp
  have h4: "?fs (?argv ! 1) = Inr ?L" by (simp add: one_file_def)
  have h: "6 \<le> length ?argv \<and> ?argv ! 2 \<in> set [ascii ''true'', ascii ''false'']
        \<and> ?argv ! 3 \<in> set [ascii ''and'', ascii ''or''] \<and> ?fs (?argv ! 1) = Inr ?L
        \<and> (\<forall>a\<in>set (drop 2 ?argv).
              length (normal_form ascii_lower (?argv ! 2 = ascii ''false'') a) \<le> 1000)"
    using h4 by (simp add: normal_form_def ascii_def)
  note t = main_reports_lines[where argv = ?argv and depth = 1000 and lower = ascii_lower
        and fs = ?fs and filelines = ?L]
  obtain res where r: "main 1000 ascii_lower ?argv ?fs = Some (Inr (Line_numbers (map Suc
               (filter (\<lambda>i. combination (?argv ! 3) (drop 4 ?argv) (res (?L ! i)))
                  [0..<length ?L]))))"
    using mp[OF conjunct2[OF t] h] by (elim exE conjE) (rule that, assumption)
  have e: "?argv ! 3 = ascii ''and''" "drop 4 ?argv = [ascii ''x'', ascii ''y'']"
    "length ?L = 3" by simp_all
  have r': "main 1000 ascii_lower ?argv ?fs = Some (Inr (Line_numbers (map Suc
               (filter (\<lambda>i. combination (ascii ''and'') [ascii ''x'', ascii ''y'']
                   (res (?L ! i))) [0..<3]))))"
    using r unfolding e .
  have "main 1000 ascii_lower ?argv ?fs = Some (Inr (Line_numbers [2, 3]))"
    by (rule main_mono[OF main_example_value]) simp
  then have v: "map Suc (filter (\<lambda>i. combination (ascii ''and'') [ascii ''x'', ascii ''y'']
                   (res (?L ! i))) [0..<3]) = [2, 3]"
    using r' by simp
  show ?thesis using u h1 h4 r' v by (intro conjI exI[of _ res])
qed

end
